theory Spec2Isabelle
  imports Main "HOL-Library.Char_ord" "HOL-Library.List_Lexorder" "HOL-Library.Multiset"
    "HOL-Library.Sublist"
begin

section \<open>Data model (App.tsx, lines 5-17)\<close>

text \<open>
  JavaScript strings are modelled as \<^typ>\<open>string\<close>: a character stands for one code unit
  below 256. \<open>number\<close> fields that the program only ever fills with integers (the bucket,
  the interval in days) are \<^typ>\<open>int\<close>. The optional fields \<open>tags\<close> and \<open>source\<close> are options.
  The fields \<open>id\<close>, \<open>term\<close> and \<open>definition\<close> carry the prefix \<open>card_\<close>.
\<close>

datatype Rating = Again | Hard | Good | Easy

datatype Mode = Review | Learn | Browse

record Term =
  card_id :: string
  card_term :: string
  card_definition :: string
  tags :: "string list option"
  source :: "string option"
  bucket :: int
  due :: string
  history :: "(string \<times> Rating) list"

datatype js_error = RangeError | TypeError | SyntaxError

section \<open>The calendar of the Date object\<close>

text \<open>
  The day arithmetic of the ECMAScript specification, on day numbers: a day is the
  number of days since 1970-01-01 (DayFromYear, YearFromTime, MonthFromTime,
  DateFromTime and MakeDay, each taken at the day of its time value).
\<close>

definition DayFromYear :: "int \<Rightarrow> int" where
  "DayFromYear y =
     365 * (y - 1970) + (y - 1969) div 4 - (y - 1901) div 100 + (y - 1601) div 400"

definition DaysInYear :: "int \<Rightarrow> int" where
  "DaysInYear y =
     (if y mod 4 \<noteq> 0 then 365
      else if y mod 100 \<noteq> 0 then 366
      else if y mod 400 \<noteq> 0 then 365
      else 366)"

text \<open>YearFromTime: the largest year whose first day is not after the given day,
  found by counting up from an underestimate.\<close>

function year_up :: "int \<Rightarrow> int \<Rightarrow> int" where
  "year_up y d = (if DayFromYear (y + 1) \<le> d then year_up (y + 1) d else y)"
  by pat_completeness auto
termination
  by (relation "measure (\<lambda>(y, d). nat (d - DayFromYear y))")
     (auto simp: DayFromYear_def)

definition YearFromDay :: "int \<Rightarrow> int" where
  "YearFromDay d = year_up (1970 + (if 0 \<le> d then d div 366 else d div 365)) d"

definition InLeapYear :: "int \<Rightarrow> int" where
  "InLeapYear d = (if DaysInYear (YearFromDay d) = 366 then 1 else 0)"

definition DayWithinYear :: "int \<Rightarrow> int" where
  "DayWithinYear d = d - DayFromYear (YearFromDay d)"

definition month_starts :: "int \<Rightarrow> int list" where
  "month_starts L =
     [0, 31, 59 + L, 90 + L, 120 + L, 151 + L, 181 + L, 212 + L, 243 + L, 273 + L,
      304 + L, 334 + L]"

definition month_of :: "int \<Rightarrow> int \<Rightarrow> nat" where
  "month_of L w = length (takeWhile (\<lambda>s. s \<le> w) (month_starts L)) - 1"

definition MonthFromDay :: "int \<Rightarrow> nat" where
  "MonthFromDay d = month_of (InLeapYear d) (DayWithinYear d)"

definition DateFromDay :: "int \<Rightarrow> int" where
  "DateFromDay d = DayWithinYear d - month_starts (InLeapYear d) ! MonthFromDay d + 1"

definition MakeDay :: "int \<Rightarrow> int \<Rightarrow> int \<Rightarrow> int" where
  "MakeDay year month date =
     (let ym = year + month div 12;
          mn = nat (month mod 12);
          L = (if DaysInYear ym = 366 then 1 else 0)
      in DayFromYear ym + month_starts L ! mn + date - 1)"


subsection \<open>Reading and printing decimal fields\<close>

definition digit_char :: "nat \<Rightarrow> char" where
  "digit_char n = char_of (48 + n)"

fun pad :: "nat \<Rightarrow> nat \<Rightarrow> string" where
  "pad 0 n = []"
| "pad (Suc k) n = pad k (n div 10) @ [digit_char (n mod 10)]"

definition is_digit :: "char \<Rightarrow> bool" where
  "is_digit c = (CHR ''0'' \<le> c \<and> c \<le> CHR ''9'')"

definition digit_val :: "char \<Rightarrow> nat" where
  "digit_val c = of_char c - 48"

definition read_nat :: "string \<Rightarrow> nat option" where
  "read_nat s =
     (if s \<noteq> [] \<and> list_all is_digit s
      then Some (foldl (\<lambda>a c. 10 * a + digit_val c) 0 s) else None)"

subsection \<open>Time values, the local time zone, and the Date methods\<close>

text \<open>
  A time value is a number of milliseconds since 1970-01-01T00:00:00Z. The local time
  zone is the parameter \<open>tza\<close> of the functions below, the LocalTZA of the ECMAScript
  specification: \<open>tza t True\<close> is the offset of local time from UTC at the UTC time \<open>t\<close>,
  and \<open>tza t False\<close> the offset at the local time \<open>t\<close>.
\<close>

definition msPerDay :: int where
  "msPerDay = 86400000"

definition Day :: "int \<Rightarrow> int" where
  "Day t = t div msPerDay"

definition TimeWithinDay :: "int \<Rightarrow> int" where
  "TimeWithinDay t = t mod msPerDay"

definition MakeDate :: "int \<Rightarrow> int \<Rightarrow> int" where
  "MakeDate day time = day * msPerDay + time"

definition TimeClip :: "int \<Rightarrow> int option" where
  "TimeClip t = (if \<bar>t\<bar> \<le> 8640000000000000 then Some t else None)"

definition LocalTime :: "(int \<Rightarrow> bool \<Rightarrow> int) \<Rightarrow> int \<Rightarrow> int" where
  "LocalTime tza t = t + tza t True"

definition UTC :: "(int \<Rightarrow> bool \<Rightarrow> int) \<Rightarrow> int \<Rightarrow> int" where
  "UTC tza t = t - tza t False"

text \<open>
  \<open>Date_parse\<close> reads the date-only form \<open>YYYY-MM-DD\<close>, the only form that \<open>todayISO\<close>
  produces, and gives its day; \<open>None\<close> is the invalid date (time value NaN). A month
  outside 1..12 or a day outside the month is taken as invalid. \<open>new Date(iso)\<close> is
  midnight UTC of that day.
\<close>

definition Date_parse :: "string \<Rightarrow> int option" where
  "Date_parse s =
     (if length s = 10 \<and> s ! 4 = CHR ''-'' \<and> s ! 7 = CHR ''-'' then
        (case (read_nat (take 4 s), read_nat (take 2 (drop 5 s)), read_nat (drop 8 s)) of
           (Some y, Some m, Some dd) \<Rightarrow>
             (if 1 \<le> m \<and> m \<le> 12 \<and> 1 \<le> dd
                 \<and> MakeDay (int y) (int m - 1) (int dd) < MakeDay (int y) (int m) 1
              then Some (MakeDay (int y) (int m - 1) (int dd)) else None)
         | _ \<Rightarrow> None)
      else None)"

definition new_Date :: "string \<Rightarrow> int option" where
  "new_Date isod = map_option (\<lambda>d. MakeDate d 0) (Date_parse isod)"

text \<open>\<open>getDate\<close> is the day of the month in local time.\<close>

definition getDate :: "(int \<Rightarrow> bool \<Rightarrow> int) \<Rightarrow> int \<Rightarrow> int" where
  "getDate tza t = DateFromDay (Day (LocalTime tza t))"

text \<open>\<open>setDate\<close> rebuilds the local time from its year, its month, the new day of the
  month and its time within the day, and converts it back to UTC; a result out of the
  range of time values is the invalid date.\<close>

definition setDate :: "(int \<Rightarrow> bool \<Rightarrow> int) \<Rightarrow> int \<Rightarrow> int \<Rightarrow> int option" where
  "setDate tza t dt =
     (let lt = LocalTime tza t;
          newDate = MakeDate (MakeDay (YearFromDay (Day lt)) (int (MonthFromDay (Day lt))) dt)
                      (TimeWithinDay lt)
      in TimeClip (UTC tza newDate))"

definition toISOString :: "int \<Rightarrow> string" where
  "toISOString t =
     (let d = Day t; w = TimeWithinDay t; y = YearFromDay d
      in (if 0 \<le> y \<and> y \<le> 9999 then pad 4 (nat y)
          else (if 0 \<le> y then ''+'' else ''-'') @ pad 6 (nat \<bar>y\<bar>))
         @ ''-'' @ pad 2 (MonthFromDay d + 1) @ ''-'' @ pad 2 (nat (DateFromDay d))
         @ ''T'' @ pad 2 (nat (w div 3600000)) @ '':'' @ pad 2 (nat (w div 60000 mod 60))
         @ '':'' @ pad 2 (nat (w div 1000 mod 60)) @ ''.'' @ pad 3 (nat (w mod 1000)) @ ''Z'')"

section \<open>The scheduler (App.tsx, lines 20-37)\<close>

text \<open>
  \<open>todayISO()\<close> and \<open>new Date().toISOString()\<close> read the clock; their results are the
  parameters \<open>today\<close> and \<open>now\<close> of the functions below. The argument \<open>days\<close> of
  \<open>addDays\<close> is \<open>None\<close> when the caller passes \<open>undefined\<close> (the day of the month becomes
  NaN and the date invalid). \<open>toISOString\<close> on an invalid date throws a RangeError.
\<close>

definition addDays :: "(int \<Rightarrow> bool \<Rightarrow> int) \<Rightarrow> string \<Rightarrow> int option \<Rightarrow> js_error + string" where
  "addDays tza isod days =
     (case new_Date isod of
        None \<Rightarrow> Inl RangeError
      | Some d \<Rightarrow>
          (case days of
             None \<Rightarrow> Inl RangeError
           | Some n \<Rightarrow>
               (case setDate tza d (getDate tza d + n) of
                  None \<Rightarrow> Inl RangeError
                | Some d' \<Rightarrow> Inr (take 10 (toISOString d')))))"

definition LEITNER_INTERVALS :: "int list" where
  "LEITNER_INTERVALS = [0, 1, 3, 7, 14, 30]"

text \<open>Indexing an array: \<open>None\<close> stands for \<open>undefined\<close>, the value of an index outside the array.\<close>

definition js_index :: "'a list \<Rightarrow> int \<Rightarrow> 'a option" where
  "js_index xs i = (if 0 \<le> i \<and> i < int (length xs) then Some (xs ! nat i) else None)"

definition scheduleNext ::
  "(int \<Rightarrow> bool \<Rightarrow> int) \<Rightarrow> string \<Rightarrow> string \<Rightarrow> Term \<Rightarrow> Rating \<Rightarrow> js_error + Term" where
  "scheduleNext tza today now t rating =
     (let b0 = bucket t;
          b1 = (if rating = Again then max 1 (b0 - 1) else b0);
          b2 = (if rating = Hard then max 1 b1 else b1);
          b3 = (if rating = Good then min 5 (max 1 (b2 + 1)) else b2);
          b4 = (if rating = Easy then min 5 (max 2 (b3 + 2)) else b3);
          interval = js_index LEITNER_INTERVALS b4
      in case addDays tza today interval of
           Inl e \<Rightarrow> Inl e
         | Inr due' \<Rightarrow>
             Inr (t\<lparr>bucket := b4, due := due', history := history t @ [(now, rating)]\<rparr>))"


section \<open>Application state and the queue (App.tsx, lines 70-109)\<close>

text \<open>
  The state of the component between two renders: the cells of \<open>useState\<close> (the mode,
  the card set \<open>all\<close>, the reveal flag and the session size) and the cell of the
  \<open>useMemo\<close> of line 94. The session size starts at 20 and its only setter stores
  \<open>Math.max(5, ...)\<close>, so it is a natural number here.

  \<open>useMemo\<close> compares its dependencies with \<open>Object.is\<close>, which for the array \<open>all\<close> is
  the identity of the object. \<open>all_ref\<close> is that identity: every call of \<open>setAll\<close> in
  the program stores an array made by \<open>map\<close>, \<open>filter\<close> or a spread, which is a new object.
\<close>

record AppState =
  mode :: Mode
  all :: "Term list"
  showBack :: bool
  sessionSize :: nat
  all_ref :: nat
  dueToday_cell :: "nat \<times> Term list"

definition setAll :: "Term list \<Rightarrow> AppState \<Rightarrow> AppState" where
  "setAll v st = st\<lparr>all := v, all_ref := Suc (all_ref st)\<rparr>"

definition setMode :: "Mode \<Rightarrow> AppState \<Rightarrow> AppState" where
  "setMode m st = st\<lparr>mode := m\<rparr>"

definition setShowBack :: "bool \<Rightarrow> AppState \<Rightarrow> AppState" where
  "setShowBack b st = st\<lparr>showBack := b\<rparr>"

text \<open>
  \<open>Array.prototype.sort\<close> with a comparator is stable. For a consistent comparator every
  stable sort gives the same array, and sorting by insertion is one of them; for any
  other comparator the order is left to the implementation.
\<close>

fun insert_by :: "('a \<Rightarrow> 'a \<Rightarrow> int) \<Rightarrow> 'a \<Rightarrow> 'a list \<Rightarrow> 'a list" where
  "insert_by cmp x [] = [x]"
| "insert_by cmp x (y # ys) = (if cmp x y \<le> 0 then x # y # ys else y # insert_by cmp x ys)"

definition js_sort :: "('a \<Rightarrow> 'a \<Rightarrow> int) \<Rightarrow> 'a list \<Rightarrow> 'a list" where
  "js_sort cmp xs = foldr (insert_by cmp) xs []"

text \<open>
  The callback of the \<open>useMemo\<close> of line 94, run on the day \<open>today\<close> (the value of
  \<open>todayISO()\<close> at that moment). \<open>t.due <= todayISO()\<close> compares the code units of the two
  strings. \<open>localeCompare\<close> is the collation of the host, a parameter here.
\<close>

definition dueToday ::
  "(string \<Rightarrow> string \<Rightarrow> int) \<Rightarrow> string \<Rightarrow> Term list \<Rightarrow> Term list" where
  "dueToday localeCompare today cards =
     js_sort (\<lambda>a b. localeCompare (due a) (due b))
       (filter (\<lambda>t. bucket t > 0 \<and> due t \<le> today) cards)"

text \<open>\<open>useMemo\<close>: the cell holds the dependencies and the value of the last computation;
  the callback runs again only when the dependencies are not the ones of the cell.\<close>

definition useMemo :: "(unit \<Rightarrow> 'a) \<Rightarrow> 'd \<Rightarrow> 'd \<times> 'a \<Rightarrow> 'd \<times> 'a" where
  "useMemo create deps cell = (if fst cell = deps then cell else (deps, create ()))"

text \<open>
  A render on the day \<open>today\<close> after a change of the state, and the first render, which
  fills the cell. \<open>useState(load())\<close> gives the first card set; the mode starts as the
  review mode and the session size as 20.
\<close>

definition render :: "(string \<Rightarrow> string \<Rightarrow> int) \<Rightarrow> string \<Rightarrow> AppState \<Rightarrow> AppState" where
  "render localeCompare today st =
     st\<lparr>dueToday_cell :=
          useMemo (\<lambda>_. dueToday localeCompare today (all st)) (all_ref st) (dueToday_cell st)\<rparr>"

definition mount :: "(string \<Rightarrow> string \<Rightarrow> int) \<Rightarrow> string \<Rightarrow> Term list \<Rightarrow> AppState" where
  "mount localeCompare today cards =
     \<lparr>mode = Review, all = cards, showBack = False, sessionSize = 20, all_ref = 0,
      dueToday_cell = (0, dueToday localeCompare today cards)\<rparr>"

text \<open>
  \<open>newCards\<close> and \<open>queue\<close> are memoised too, on every value that their callbacks read, so
  their values are the ones that the callbacks compute from the state of this render.
  \<open>queue\<close> slices the memoised value of \<open>dueToday\<close>.
\<close>

definition newCards :: "Term list \<Rightarrow> Term list" where
  "newCards cards = filter (\<lambda>t. bucket t = 0) cards"

definition queue :: "AppState \<Rightarrow> Term list" where
  "queue st =
     (if mode st = Review then take (sessionSize st) (snd (dueToday_cell st))
      else if mode st = Learn then take (sessionSize st) (newCards (all st))
      else [])"

definition current :: "AppState \<Rightarrow> Term option" where
  "current st = (case queue st of [] \<Rightarrow> None | c # _ \<Rightarrow> Some c)"

section \<open>Operations on the card set (App.tsx, lines 111-146 and 283)\<close>

text \<open>\<open>Array.prototype.map\<close> with a callback that may throw: the first exception ends the call.\<close>

fun map_throw :: "('a \<Rightarrow> js_error + 'b) \<Rightarrow> 'a list \<Rightarrow> js_error + 'b list" where
  "map_throw f [] = Inr []"
| "map_throw f (x # xs) =
     (case f x of
        Inl e \<Rightarrow> Inl e
      | Inr y \<Rightarrow> (case map_throw f xs of Inl e \<Rightarrow> Inl e | Inr ys \<Rightarrow> Inr (y # ys)))"

text \<open>\<open>rate\<close>: \<open>current\<close> is the head of the queue of the last render; \<open>t.bucket || 1\<close>
  replaces the bucket 0 by 1 before the scheduler runs. An exception of the scheduler
  leaves the state as it was.\<close>

definition rate ::
  "(int \<Rightarrow> bool \<Rightarrow> int) \<Rightarrow> string \<Rightarrow> string \<Rightarrow> Rating \<Rightarrow> AppState \<Rightarrow> js_error + AppState" where
  "rate tza today now rating st =
     (case current st of
        None \<Rightarrow> Inr st
      | Some cur \<Rightarrow>
          (case map_throw
                  (\<lambda>t. if card_id t = card_id cur
                       then scheduleNext tza today now
                              (t\<lparr>bucket := (if bucket t = 0 then 1 else bucket t)\<rparr>) rating
                       else Inr t)
                  (all st) of
             Inl e \<Rightarrow> Inl e
           | Inr next \<Rightarrow> Inr (setShowBack False (setAll next st))))"

text \<open>\<open>resetProgress\<close>: \<open>confirmed\<close> is the answer to the confirmation dialog.\<close>

definition resetProgress :: "string \<Rightarrow> bool \<Rightarrow> AppState \<Rightarrow> AppState" where
  "resetProgress today confirmed st =
     (if \<not> confirmed then st
      else setMode Learn
             (setAll (map (\<lambda>t. t\<lparr>bucket := 0, due := today, history := []\<rparr>) (all st)) st))"

subsection \<open>Strings: split and trim\<close>

fun split_on :: "(char \<Rightarrow> bool) \<Rightarrow> string \<Rightarrow> string list" where
  "split_on P [] = [[]]"
| "split_on P (c # cs) =
     (if P c then [] # split_on P cs
      else (case split_on P cs of [] \<Rightarrow> [[c]] | l # ls \<Rightarrow> (c # l) # ls))"

text \<open>\<open>csv.split(/\r?\n/)\<close>: a line ends at a line feed, or at a carriage return that a
  line feed follows.\<close>

fun split_lines :: "string \<Rightarrow> string list" where
  "split_lines [] = [[]]"
| "split_lines [c] = (if c = CHR 0x0A then [[], []] else [[c]])"
| "split_lines (c # c' # cs) =
     (if c = CHR 0x0A then [] # split_lines (c' # cs)
      else if c = CHR 0x0D \<and> c' = CHR 0x0A then [] # split_lines cs
      else (case split_lines (c' # cs) of [] \<Rightarrow> [[c]] | l # ls \<Rightarrow> (c # l) # ls))"

text \<open>The white space and line terminators of \<open>String.prototype.trim\<close> below 256.\<close>

definition is_space :: "char \<Rightarrow> bool" where
  "is_space c = (c \<in> {CHR 0x09, CHR 0x0A, CHR 0x0B, CHR 0x0C, CHR 0x0D, CHR 0x20, CHR 0xA0})"

definition trim :: "string \<Rightarrow> string" where
  "trim s = rev (dropWhile is_space (rev (dropWhile is_space s)))"

subsection \<open>importCSV, addOne, delete\<close>

text \<open>\<open>uid\<close> is random: the parameter \<open>uid\<close> gives the identifier of the i-th call.\<close>

definition parse_row :: "string \<Rightarrow> string \<Rightarrow> string \<Rightarrow> Term" where
  "parse_row ident today r =
     (let fields = split_on (\<lambda>c. c = CHR '';'' \<or> c = CHR 0x09) r;
          term_f = js_index fields 0;
          definition_f = js_index fields 1;
          tags_f = js_index fields 2
      in \<lparr>card_id = ident,
          card_term = trim (case term_f of None \<Rightarrow> [] | Some x \<Rightarrow> x),
          card_definition = trim (case definition_f of None \<Rightarrow> [] | Some x \<Rightarrow> x),
          tags = Some (case tags_f of
                         None \<Rightarrow> []
                       | Some x \<Rightarrow> if x = [] then []
                                   else map trim (split_on (\<lambda>c. c = CHR '','') x)),
          source = None, bucket = 0, due = today, history = []\<rparr>)"

definition importCSV :: "(nat \<Rightarrow> string) \<Rightarrow> string \<Rightarrow> string \<Rightarrow> AppState \<Rightarrow> AppState" where
  "importCSV uid today csv st =
     (let rows = filter (\<lambda>r. r \<noteq> []) (map trim (split_lines csv));
          parsed = map (\<lambda>(i, r). parse_row (uid i) today r) (enumerate 0 rows)
      in if parsed = [] then st else setMode Learn (setAll parsed st))"

text \<open>\<open>addOne\<close>: the three prompts answer \<open>None\<close> when cancelled; the second and third are
  only asked when the first gave a non-empty term.\<close>

definition addOne ::
  "string \<Rightarrow> string \<Rightarrow> string option \<Rightarrow> string option \<Rightarrow> string option \<Rightarrow> AppState \<Rightarrow> AppState" where
  "addOne ident today term_p definition_p tags_p st =
     (case term_p of
        None \<Rightarrow> st
      | Some tm \<Rightarrow>
          if tm = [] then st
          else
            (let definition_f = (case definition_p of None \<Rightarrow> [] | Some x \<Rightarrow> x);
                 tags_f = filter (\<lambda>x. x \<noteq> [])
                            (map trim (split_on (\<lambda>c. c = CHR '','')
                               (case tags_p of None \<Rightarrow> [] | Some x \<Rightarrow> x)))
             in setAll (all st @
                   [\<lparr>card_id = ident, card_term = tm, card_definition = definition_f,
                     tags = Some tags_f, source = None, bucket = 0, due = today,
                     history = []\<rparr>]) st))"

definition deleteCard :: "string \<Rightarrow> AppState \<Rightarrow> AppState" where
  "deleteCard ident st = setAll (filter (\<lambda>x. card_id x \<noteq> ident) (all st)) st"

subsection \<open>exportJSON: JSON.stringify(all, null, 2)\<close>

text \<open>
  The text that \<open>exportJSON\<close> offers for download. The properties of a card are written
  in the order of the type \<open>Term\<close>; a property that is \<open>undefined\<close> is left out.
\<close>

definition hex_digit :: "nat \<Rightarrow> char" where
  "hex_digit n = (if n < 10 then char_of (48 + n) else char_of (87 + n))"

definition quote_unit :: "char \<Rightarrow> string" where
  "quote_unit c =
     (let n = (of_char c :: nat)
      in if n = 0x08 then [CHR 0x5C, CHR ''b'']
         else if n = 0x09 then [CHR 0x5C, CHR ''t'']
         else if n = 0x0A then [CHR 0x5C, CHR ''n'']
         else if n = 0x0C then [CHR 0x5C, CHR ''f'']
         else if n = 0x0D then [CHR 0x5C, CHR ''r'']
         else if n = 0x22 then [CHR 0x5C, CHR 0x22]
         else if n = 0x5C then [CHR 0x5C, CHR 0x5C]
         else if n < 0x20 then [CHR 0x5C, CHR ''u'', CHR ''0'', CHR ''0'',
                                hex_digit (n div 16), hex_digit (n mod 16)]
         else [c])"

definition QuoteJSONString :: "string \<Rightarrow> string" where
  "QuoteJSONString s = CHR 0x22 # concat (map quote_unit s) @ [CHR 0x22]"

fun show_nat :: "nat \<Rightarrow> string" where
  "show_nat n = (if n < 10 then [digit_char n] else show_nat (n div 10) @ [digit_char (n mod 10)])"

definition show_int :: "int \<Rightarrow> string" where
  "show_int i = (if i < 0 then CHR ''-'' # show_nat (nat (- i)) else show_nat (nat i))"

definition indent :: "nat \<Rightarrow> string" where
  "indent n = CHR 0x0A # replicate n CHR '' ''"

fun join :: "string \<Rightarrow> string list \<Rightarrow> string" where
  "join sep [] = []"
| "join sep [x] = x"
| "join sep (x # y # ys) = x @ sep @ join sep (y # ys)"

text \<open>An array or object whose parts are already serialised one level deeper.\<close>

definition ser_array :: "nat \<Rightarrow> string list \<Rightarrow> string" where
  "ser_array ind items =
     (if items = [] then ''[]''
      else ''['' @ indent (ind + 2) @ join ('','' @ indent (ind + 2)) items @ indent ind @ '']'')"

definition ser_object :: "nat \<Rightarrow> (string \<times> string) list \<Rightarrow> string" where
  "ser_object ind members =
     (if members = [] then ''{}''
      else ''{'' @ indent (ind + 2)
           @ join ('','' @ indent (ind + 2))
                (map (\<lambda>(k, v). QuoteJSONString k @ '': '' @ v) members)
           @ indent ind @ ''}'')"

fun rating_name :: "Rating \<Rightarrow> string" where
  "rating_name Again = ''again''"
| "rating_name Hard = ''hard''"
| "rating_name Good = ''good''"
| "rating_name Easy = ''easy''"

definition ser_entry :: "nat \<Rightarrow> string \<times> Rating \<Rightarrow> string" where
  "ser_entry ind e =
     ser_object ind [(''d'', QuoteJSONString (fst e)), (''rating'', QuoteJSONString (rating_name (snd e)))]"

definition ser_Term :: "nat \<Rightarrow> Term \<Rightarrow> string" where
  "ser_Term ind t =
     ser_object ind
       ([(''id'', QuoteJSONString (card_id t)),
         (''term'', QuoteJSONString (card_term t)),
         (''definition'', QuoteJSONString (card_definition t))]
        @ (case tags t of
             None \<Rightarrow> []
           | Some ts \<Rightarrow> [(''tags'', ser_array (ind + 2) (map QuoteJSONString ts))])
        @ (case source t of None \<Rightarrow> [] | Some x \<Rightarrow> [(''source'', QuoteJSONString x)])
        @ [(''bucket'', show_int (bucket t)),
           (''due'', QuoteJSONString (due t)),
           (''history'', ser_array (ind + 2) (map (ser_entry (ind + 4)) (history t)))])"

definition exportJSON :: "Term list \<Rightarrow> string" where
  "exportJSON cards = ser_array 0 (map (ser_Term 2) cards)"

section \<open>Loading the card set (App.tsx, lines 56-60)\<close>

subsection \<open>JSON values and JSON.parse\<close>

text \<open>
  The values that \<open>JSON.parse\<close> builds. A string of a value is a list of code units
  (an escape \<open>\uXXXX\<close> can give any of them). A number is kept as the exact decimal
  that the text writes: sign, digits and power of ten.
\<close>

datatype json =
    JNull
  | JBool bool
  | JNum bool nat int
  | JStr "nat list"
  | JArr "json list"
  | JObj "(nat list \<times> json) list"

definition ustr :: "string \<Rightarrow> nat list" where
  "ustr s = map of_char s"

text \<open>A parser with fuel: \<open>NoFuel\<close> when the fuel ran out, \<open>Reject\<close> for a syntax error.\<close>

datatype 'a presult = NoFuel | Reject | Accept 'a

definition is_json_ws :: "char \<Rightarrow> bool" where
  "is_json_ws c = (c \<in> {CHR 0x20, CHR 0x09, CHR 0x0A, CHR 0x0D})"

definition skip_ws :: "string \<Rightarrow> string" where
  "skip_ws cs = dropWhile is_json_ws cs"

definition hex_val :: "char \<Rightarrow> nat option" where
  "hex_val c =
     (let n = (of_char c :: nat)
      in if 48 \<le> n \<and> n \<le> 57 then Some (n - 48)
         else if 97 \<le> n \<and> n \<le> 102 then Some (n - 87)
         else if 65 \<le> n \<and> n \<le> 70 then Some (n - 55)
         else None)"

definition parse_hex4 :: "string \<Rightarrow> nat option" where
  "parse_hex4 cs =
     (if length cs < 4 then None
      else (case (hex_val (cs ! 0), hex_val (cs ! 1), hex_val (cs ! 2), hex_val (cs ! 3)) of
              (Some a, Some b, Some c, Some d) \<Rightarrow> Some (((a * 16 + b) * 16 + c) * 16 + d)
            | _ \<Rightarrow> None))"

definition escape_unit :: "char \<Rightarrow> nat option" where
  "escape_unit e =
     (if e = CHR 0x22 then Some 0x22
      else if e = CHR 0x5C then Some 0x5C
      else if e = CHR ''/'' then Some 0x2F
      else if e = CHR ''b'' then Some 0x08
      else if e = CHR ''f'' then Some 0x0C
      else if e = CHR ''n'' then Some 0x0A
      else if e = CHR ''r'' then Some 0x0D
      else if e = CHR ''t'' then Some 0x09
      else None)"

text \<open>The characters of a string after its opening quote, up to the closing quote.\<close>

function parse_chars :: "string \<Rightarrow> (nat list \<times> string) option" where
  "parse_chars [] = None"
| "parse_chars (c # cs) =
     (if c = CHR 0x22 then Some ([], cs)
      else if c = CHR 0x5C then
        (case cs of
           [] \<Rightarrow> None
         | e # cs' \<Rightarrow>
             if e = CHR ''u'' then
               (case parse_hex4 cs' of
                  None \<Rightarrow> None
                | Some u \<Rightarrow>
                    (case parse_chars (drop 4 cs') of
                       None \<Rightarrow> None
                     | Some (us, r) \<Rightarrow> Some (u # us, r)))
             else
               (case escape_unit e of
                  None \<Rightarrow> None
                | Some u \<Rightarrow>
                    (case parse_chars cs' of
                       None \<Rightarrow> None
                     | Some (us, r) \<Rightarrow> Some (u # us, r))))
      else if (of_char c :: nat) < 0x20 then None
      else (case parse_chars cs of
              None \<Rightarrow> None
            | Some (us, r) \<Rightarrow> Some (of_char c # us, r)))"
  by pat_completeness auto
termination
  by (relation "measure length") auto

definition digits_val :: "string \<Rightarrow> nat" where
  "digits_val s = foldl (\<lambda>a c. 10 * a + digit_val c) 0 s"

text \<open>A number: an optional minus, the integer digits (no leading zero), an optional
  fraction and an optional exponent.\<close>

definition parse_number :: "string \<Rightarrow> (json \<times> string) option" where
  "parse_number cs =
     (let neg = (cs \<noteq> [] \<and> hd cs = CHR ''-'');
          cs1 = (if neg then tl cs else cs);
          ip = takeWhile is_digit cs1;
          cs2 = dropWhile is_digit cs1;
          has_frac = (cs2 \<noteq> [] \<and> hd cs2 = CHR ''.'');
          fp = (if has_frac then takeWhile is_digit (tl cs2) else []);
          cs3 = (if has_frac then dropWhile is_digit (tl cs2) else cs2);
          has_exp = (cs3 \<noteq> [] \<and> (hd cs3 = CHR ''e'' \<or> hd cs3 = CHR ''E''));
          cs4 = (if has_exp then tl cs3 else cs3);
          eneg = (has_exp \<and> cs4 \<noteq> [] \<and> hd cs4 = CHR ''-'');
          cs5 = (if has_exp \<and> cs4 \<noteq> [] \<and> (hd cs4 = CHR ''-'' \<or> hd cs4 = CHR ''+'')
                 then tl cs4 else cs4);
          ed = (if has_exp then takeWhile is_digit cs5 else []);
          cs6 = (if has_exp then dropWhile is_digit cs5 else cs3);
          ex = (if eneg then - int (digits_val ed) else int (digits_val ed))
      in if ip = [] \<or> (1 < length ip \<and> hd ip = CHR ''0'') then None
         else if has_frac \<and> fp = [] then None
         else if has_exp \<and> ed = [] then None
         else Some (JNum neg (digits_val (ip @ fp)) (ex - int (length fp)), cs6))"

fun parse_value :: "nat \<Rightarrow> string \<Rightarrow> (json \<times> string) presult"
  and parse_elements :: "nat \<Rightarrow> string \<Rightarrow> (json list \<times> string) presult"
  and parse_members :: "nat \<Rightarrow> string \<Rightarrow> ((nat list \<times> json) list \<times> string) presult"
where
  "parse_value 0 cs = NoFuel"
| "parse_value (Suc n) cs =
     (case cs of
        [] \<Rightarrow> Reject
      | c # rest \<Rightarrow>
          if c = CHR ''['' then
            (case skip_ws rest of
               [] \<Rightarrow> Reject
             | c' # rest' \<Rightarrow>
                 if c' = CHR '']'' then Accept (JArr [], rest')
                 else (case parse_elements n (c' # rest') of
                         NoFuel \<Rightarrow> NoFuel
                       | Reject \<Rightarrow> Reject
                       | Accept (vs, r) \<Rightarrow> Accept (JArr vs, r)))
          else if c = CHR ''{'' then
            (case skip_ws rest of
               [] \<Rightarrow> Reject
             | c' # rest' \<Rightarrow>
                 if c' = CHR ''}'' then Accept (JObj [], rest')
                 else (case parse_members n (c' # rest') of
                         NoFuel \<Rightarrow> NoFuel
                       | Reject \<Rightarrow> Reject
                       | Accept (kvs, r) \<Rightarrow> Accept (JObj kvs, r)))
          else if c = CHR 0x22 then
            (case parse_chars rest of
               None \<Rightarrow> Reject
             | Some (s, r) \<Rightarrow> Accept (JStr s, r))
          else if take 4 cs = ''true'' then Accept (JBool True, drop 4 cs)
          else if take 5 cs = ''false'' then Accept (JBool False, drop 5 cs)
          else if take 4 cs = ''null'' then Accept (JNull, drop 4 cs)
          else (case parse_number cs of
                  None \<Rightarrow> Reject
                | Some (v, r) \<Rightarrow> Accept (v, r)))"
| "parse_elements 0 cs = NoFuel"
| "parse_elements (Suc n) cs =
     (case parse_value n cs of
        NoFuel \<Rightarrow> NoFuel
      | Reject \<Rightarrow> Reject
      | Accept (v, r) \<Rightarrow>
          (case skip_ws r of
             [] \<Rightarrow> Reject
           | c # r' \<Rightarrow>
               if c = CHR '']'' then Accept ([v], r')
               else if c = CHR '','' then
                 (case parse_elements n (skip_ws r') of
                    NoFuel \<Rightarrow> NoFuel
                  | Reject \<Rightarrow> Reject
                  | Accept (vs, r'') \<Rightarrow> Accept (v # vs, r''))
               else Reject))"
| "parse_members 0 cs = NoFuel"
| "parse_members (Suc n) cs =
     (case cs of
        [] \<Rightarrow> Reject
      | q # cs' \<Rightarrow>
          if q \<noteq> CHR 0x22 then Reject
          else
            (case parse_chars cs' of
               None \<Rightarrow> Reject
             | Some (k, r) \<Rightarrow>
                 (case skip_ws r of
                    [] \<Rightarrow> Reject
                  | c # r' \<Rightarrow>
                      if c \<noteq> CHR '':'' then Reject
                      else
                        (case parse_value n (skip_ws r') of
                           NoFuel \<Rightarrow> NoFuel
                         | Reject \<Rightarrow> Reject
                         | Accept (v, r'') \<Rightarrow>
                             (case skip_ws r'' of
                                [] \<Rightarrow> Reject
                              | c2 # r3 \<Rightarrow>
                                  if c2 = CHR ''}'' then Accept ([(k, v)], r3)
                                  else if c2 = CHR '','' then
                                    (case parse_members n (skip_ws r3) of
                                       NoFuel \<Rightarrow> NoFuel
                                     | Reject \<Rightarrow> Reject
                                     | Accept (kvs, r4) \<Rightarrow> Accept ((k, v) # kvs, r4))
                                  else Reject)))))"

text \<open>\<open>JSON.parse\<close>: \<open>None\<close> when it throws a SyntaxError. The fuel is more than the
  parser can use on the text.\<close>

definition JSON_parse :: "string \<Rightarrow> json option" where
  "JSON_parse s =
     (case parse_value (2 * length s + 1) (skip_ws s) of
        Accept (v, r) \<Rightarrow> if skip_ws r = [] then Some v else None
      | _ \<Rightarrow> None)"

subsection \<open>load\<close>

text \<open>
  The property \<open>length\<close> of a parsed value: reading it from \<open>null\<close> throws a TypeError;
  a number or a boolean has none (\<open>None\<close> is \<open>undefined\<close>); an object has the one of its
  members, the last of them when the text repeats the key.
\<close>

definition get_length :: "json \<Rightarrow> js_error + json option" where
  "get_length v =
     (case v of
        JNull \<Rightarrow> Inl TypeError
      | JBool b \<Rightarrow> Inr None
      | JNum s m e \<Rightarrow> Inr None
      | JStr s \<Rightarrow> Inr (Some (JNum False (length s) 0))
      | JArr xs \<Rightarrow> Inr (Some (JNum False (length xs) 0))
      | JObj kvs \<Rightarrow> Inr (map_of (rev kvs) (ustr ''length'')))"

text \<open>A decimal is the number zero when its digits are zero, or when it is so small that
  the nearest double is zero (at most \<open>2 ^ -1075\<close>).\<close>

definition is_zero :: "nat \<Rightarrow> int \<Rightarrow> bool" where
  "is_zero m e = (m = 0 \<or> (e < 0 \<and> int m * 2 ^ 1075 \<le> 10 ^ nat (- e)))"

definition truthy :: "json option \<Rightarrow> bool" where
  "truthy v =
     (case v of
        None \<Rightarrow> False
      | Some JNull \<Rightarrow> False
      | Some (JBool b) \<Rightarrow> b
      | Some (JNum s m e) \<Rightarrow> \<not> is_zero m e
      | Some (JStr s) \<Rightarrow> s \<noteq> []
      | Some (JArr xs) \<Rightarrow> True
      | Some (JObj kvs) \<Rightarrow> True)"

text \<open>
  \<open>load\<close> returns either the constant \<open>SEED\<close> (the parameter \<open>seed\<close>: its ten cards are
  built from \<open>uid()\<close> and \<open>todayISO()\<close> when the module is loaded) or the parsed value,
  which the source casts to \<open>Term[]\<close> without a check. \<open>raw\<close> is the result of
  \<open>localStorage.getItem\<close>: \<open>None\<close> for a missing key.
\<close>

datatype loaded = Default "Term list" | Parsed json

definition load :: "Term list \<Rightarrow> string option \<Rightarrow> loaded" where
  "load seed raw =
     (case raw of
        None \<Rightarrow> Default seed
      | Some stored \<Rightarrow>
          if stored = [] then Default seed
          else
            (case JSON_parse stored of
               None \<Rightarrow> Default seed
             | Some parsed \<Rightarrow>
                 (case get_length parsed of
                    Inl e \<Rightarrow> Default seed
                  | Inr len \<Rightarrow> if truthy len then Parsed parsed else Default seed)))"

section \<open>Notions of the specification\<close>

text \<open>The bucket transition table of the specification, with its \<open>clamp\<close>.\<close>

definition clamp :: "int \<Rightarrow> int \<Rightarrow> int \<Rightarrow> int" where
  "clamp x lo hi = min hi (max lo x)"

fun transition_table :: "Rating \<Rightarrow> int \<Rightarrow> int" where
  "transition_table Again B = max 1 (B - 1)"
| "transition_table Hard B = max 1 B"
| "transition_table Good B = clamp (B + 1) 1 5"
| "transition_table Easy B = clamp (B + 2) 2 5"

text \<open>The invariant of the data model: the bucket is one of 0..5, and it is 0 exactly
  when the card has never been rated.\<close>

definition card_inv :: "Term \<Rightarrow> bool" where
  "card_inv t = (bucket t \<in> {0, 1, 2, 3, 4, 5} \<and> (bucket t = 0) = (history t = []))"

text \<open>The calendar date of the day \<open>d\<close>, written as \<open>todayISO\<close> and \<open>addDays\<close> write it:
  the first ten characters of the ISO time stamp.\<close>

definition date_string :: "int \<Rightarrow> string" where
  "date_string d = take 10 (toISOString (MakeDate d 0))"

text \<open>A local time zone is plausible when its offsets stay within a day, and constant
  when it has one offset at all times. The zone of the example: five hours behind UTC
  until 2024-03-10T07:00Z (in local time, 03:00 of that day) and four hours behind
  afterwards, as New York is in the spring of 2024.\<close>

definition zone_ok :: "(int \<Rightarrow> bool \<Rightarrow> int) \<Rightarrow> bool" where
  "zone_ok tza = (\<forall>t u. \<bar>tza t u\<bar> \<le> msPerDay)"

definition constant_zone :: "int \<Rightarrow> int \<Rightarrow> bool \<Rightarrow> int" where
  "constant_zone c t u = c"

definition zone_new_york :: "int \<Rightarrow> bool \<Rightarrow> int" where
  "zone_new_york t u =
     (if u then (if t < 1710054000000 then - 18000000 else - 14400000)
      else (if t < 1710039600000 then - 18000000 else - 14400000))"

text \<open>A card for the examples.\<close>

definition card_kpi :: Term where
  "card_kpi =
     \<lparr>card_id = ''k1'', card_term = ''KPI'', card_definition = ''Key performance indicator'',
      tags = Some [''metrics''], source = None, bucket = 3, due = ''2024-03-01'',
      history = [(''2024-02-23T08:00:00.000Z'', Good)]\<rparr>"

text \<open>The order of the review queue in the words of the specification: the cards with
  bucket above 0 that are due today or earlier, non-decreasing by due date, cards of
  one due date in the order of the card set.\<close>

definition review_order :: "string \<Rightarrow> Term list \<Rightarrow> Term list \<Rightarrow> bool" where
  "review_order today cards full =
     (mset full = mset (filter (\<lambda>t. 0 < bucket t \<and> due t \<le> today) cards)
      \<and> sorted (map due full)
      \<and> (\<forall>k. filter (\<lambda>t. due t = k) full
             = filter (\<lambda>t. due t = k) (filter (\<lambda>t. 0 < bucket t \<and> due t \<le> today) cards)))"

text \<open>A card set for the examples: two cards due on 2024-03-01, one due earlier, one due
  later than today (2024-03-05) and two new cards.\<close>

definition card_bsc :: Term where
  "card_bsc = card_kpi\<lparr>card_id := ''b2'', card_term := ''BSC'', bucket := 2, due := ''2024-02-20''\<rparr>"

definition card_new :: Term where
  "card_new = card_kpi\<lparr>card_id := ''n3'', card_term := ''Outsourcing'', bucket := 0,
                       due := ''2024-03-05'', history := []\<rparr>"

definition card_tie :: Term where
  "card_tie = card_kpi\<lparr>card_id := ''t4'', card_term := ''Margin'', bucket := 1\<rparr>"

definition card_later :: Term where
  "card_later = card_kpi\<lparr>card_id := ''l5'', card_term := ''Break-even'', bucket := 4,
                         due := ''2024-03-09''\<rparr>"

definition card_new2 :: Term where
  "card_new2 = card_new\<lparr>card_id := ''n6'', card_term := ''Fixed costs''\<rparr>"

text \<open>
  The collation of the examples compares code units, as every locale does on strings of
  digits and hyphens of one shape. A collation is taken to agree with the order of the
  code units on the strings that are dates.
\<close>

definition code_unit_compare :: "string \<Rightarrow> string \<Rightarrow> int" where
  "code_unit_compare a b = (if a < b then - 1 else if a = b then 0 else 1)"

definition is_date :: "string \<Rightarrow> bool" where
  "is_date s = (Date_parse s \<noteq> None)"

text \<open>The day of the due date of a card whose due date is a date.\<close>

definition due_day :: "Term \<Rightarrow> int" where
  "due_day t = the (Date_parse (due t))"

definition collation_ok :: "(string \<Rightarrow> string \<Rightarrow> int) \<Rightarrow> bool" where
  "collation_ok localeCompare =
     (\<forall>a b. is_date a \<longrightarrow> is_date b \<longrightarrow> (localeCompare a b \<le> 0) = (a \<le> b))"

text \<open>The cell of \<open>dueToday\<close> holds the value computed from the present card set on the
  day \<open>d\<close>.\<close>

definition computed_on :: "(string \<Rightarrow> string \<Rightarrow> int) \<Rightarrow> string \<Rightarrow> AppState \<Rightarrow> bool" where
  "computed_on localeCompare d st =
     (dueToday_cell st = (all_ref st, dueToday localeCompare d (all st)))"

definition example_cards :: "Term list" where
  "example_cards = [card_kpi, card_new, card_later, card_tie, card_bsc, card_new2]"

text \<open>The state after the first render on 2024-03-05, with a session of two cards.\<close>

definition example_state :: AppState where
  "example_state = (mount code_unit_compare ''2024-03-05'' example_cards)\<lparr>sessionSize := 2\<rparr>"

text \<open>Two cards agree on the fields that the round trip of the specification names.\<close>

definition same_fields :: "Term \<Rightarrow> Term \<Rightarrow> bool" where
  "same_fields a b =
     (card_term a = card_term b \<and> card_definition a = card_definition b \<and> tags a = tags b
      \<and> bucket a = bucket b \<and> due a = due b \<and> history a = history b)"

text \<open>A line of the import text that is empty or holds white space only, and the lines
  of a text that are not blank, each without the white space at its ends.\<close>

definition blank :: "string \<Rightarrow> bool" where
  "blank l = list_all is_space l"

definition nonblank_lines :: "string \<Rightarrow> string list" where
  "nonblank_lines txt = map trim (filter (\<lambda>l. \<not> blank l) (split_lines txt))"

text \<open>A state with one card, and identifiers for the examples.\<close>

definition single_state :: AppState where
  "single_state = setMode Browse (mount code_unit_compare ''2024-03-05'' [card_kpi])"

definition example_uid :: "nat \<Rightarrow> string" where
  "example_uid i = ''id'' @ show_nat i"

text \<open>A parsed value that is a non-empty array of cards: every element is an object
  with the properties of the type \<open>Term\<close> (\<open>tags\<close> and \<open>source\<close> may be missing).\<close>

definition is_str :: "json option \<Rightarrow> bool" where
  "is_str v = (case v of Some (JStr s) \<Rightarrow> True | _ \<Rightarrow> False)"

definition is_num :: "json option \<Rightarrow> bool" where
  "is_num v = (case v of Some (JNum s m e) \<Rightarrow> True | _ \<Rightarrow> False)"

definition is_entry_json :: "json \<Rightarrow> bool" where
  "is_entry_json v =
     (case v of
        JObj kvs \<Rightarrow>
          is_str (map_of (rev kvs) (ustr ''d''))
          \<and> map_of (rev kvs) (ustr ''rating'')
              \<in> {Some (JStr (ustr ''again'')), Some (JStr (ustr ''hard'')),
                  Some (JStr (ustr ''good'')), Some (JStr (ustr ''easy''))}
      | _ \<Rightarrow> False)"

definition is_Term_json :: "json \<Rightarrow> bool" where
  "is_Term_json v =
     (case v of
        JObj kvs \<Rightarrow>
          is_str (map_of (rev kvs) (ustr ''id''))
          \<and> is_str (map_of (rev kvs) (ustr ''term''))
          \<and> is_str (map_of (rev kvs) (ustr ''definition''))
          \<and> (case map_of (rev kvs) (ustr ''tags'') of
                None \<Rightarrow> True
              | Some (JArr ts) \<Rightarrow> list_all (\<lambda>t. is_str (Some t)) ts
              | _ \<Rightarrow> False)
          \<and> (case map_of (rev kvs) (ustr ''source'') of
                None \<Rightarrow> True
              | Some s \<Rightarrow> is_str (Some s))
          \<and> is_num (map_of (rev kvs) (ustr ''bucket''))
          \<and> is_str (map_of (rev kvs) (ustr ''due''))
          \<and> (case map_of (rev kvs) (ustr ''history'') of
                Some (JArr es) \<Rightarrow> list_all is_entry_json es
              | _ \<Rightarrow> False)
      | _ \<Rightarrow> False)"

definition is_card_array :: "json \<Rightarrow> bool" where
  "is_card_array v = (case v of JArr xs \<Rightarrow> xs \<noteq> [] \<and> list_all is_Term_json xs | _ \<Rightarrow> False)"

text \<open>
  A parsed value has a truthy \<open>length\<close>: a non-empty array, a non-empty string, or an
  object whose member \<open>length\<close> (the last one, when the text repeats the key) is neither
  \<open>null\<close>, \<open>false\<close>, zero nor the empty string.
\<close>

definition truthy_length :: "json \<Rightarrow> bool" where
  "truthy_length v =
     (case v of
        JArr xs \<Rightarrow> xs \<noteq> []
      | JStr s \<Rightarrow> s \<noteq> []
      | JObj kvs \<Rightarrow>
          (case map_of (rev kvs) (ustr ''length'') of
             None \<Rightarrow> False
           | Some JNull \<Rightarrow> False
           | Some (JBool b) \<Rightarrow> b
           | Some (JNum s m e) \<Rightarrow> \<not> is_zero m e
           | Some (JStr s) \<Rightarrow> s \<noteq> []
           | Some (JArr xs) \<Rightarrow> True
           | Some (JObj ms) \<Rightarrow> True)
      | _ \<Rightarrow> False)"

text \<open>The JSON text of an object whose only member is \<open>length\<close>, with the value \<open>n\<close>.\<close>

definition length_object :: "string \<Rightarrow> string" where
  "length_object n = ''{'' @ [CHR 0x22] @ ''length'' @ [CHR 0x22] @ '':'' @ n @ ''}''"

section \<open>Properties of the calendar\<close>

lemma div_succ_dvd:
  fixes a k :: int
  assumes "1 < k"
  shows "(a + 1) div k = a div k + (if k dvd a + 1 then 1 else 0)"
proof -
  have r: "0 \<le> a mod k" "a mod k < k" using assms by simp_all
  have e: "(a + 1) div k = a div k + (a mod k + 1) div k"
    using div_add1_eq [of a 1 k] assms by simp
  show ?thesis
  proof (cases "a mod k = k - 1")
    case True
    then have "(a mod k + 1) div k = 1" using assms by simp
    moreover have "k dvd a + 1"
    proof -
      have "(a + 1) mod k = (a mod k + 1) mod k" by (simp add: mod_add_left_eq)
      also have "\<dots> = 0" using True by simp
      finally show ?thesis by (simp add: mod_eq_0_iff_dvd)
    qed
    ultimately show ?thesis using e by simp
  next
    case False
    then have lt: "a mod k + 1 < k" using r by linarith
    then have "(a mod k + 1) div k = 0" using r by simp
    moreover have "\<not> k dvd a + 1"
    proof
      assume "k dvd a + 1"
      then have "(a + 1) mod k = 0" by (simp add: mod_eq_0_iff_dvd)
      moreover have "(a + 1) mod k = (a mod k + 1) mod k" by (simp add: mod_add_left_eq)
      moreover have "(a mod k + 1) mod k = a mod k + 1" using lt r by simp
      ultimately show False using r by linarith
    qed
    ultimately show ?thesis using e by simp
  qed
qed

lemma DayFromYear_step: "DayFromYear (y + 1) = DayFromYear y + DaysInYear y"
proof -
  have a: "(y + 1 - 1969) div 4 = (y - 1969) div 4 + (if 4 dvd y then 1 else 0)"
  proof -
    have "(4 dvd y - 1969 + 1) = (4 dvd y)" by presburger
    then show ?thesis using div_succ_dvd [of 4 "y - 1969"] by (simp add: algebra_simps)
  qed
  have b: "(y + 1 - 1901) div 100 = (y - 1901) div 100 + (if 100 dvd y then 1 else 0)"
  proof -
    have "(100 dvd y - 1901 + 1) = (100 dvd y)" by presburger
    then show ?thesis using div_succ_dvd [of 100 "y - 1901"] by (simp add: algebra_simps)
  qed
  have c: "(y + 1 - 1601) div 400 = (y - 1601) div 400 + (if 400 dvd y then 1 else 0)"
  proof -
    have "(400 dvd y - 1601 + 1) = (400 dvd y)" by presburger
    then show ?thesis using div_succ_dvd [of 400 "y - 1601"] by (simp add: algebra_simps)
  qed
  have d: "100 dvd y \<Longrightarrow> 4 dvd y" "400 dvd y \<Longrightarrow> 100 dvd y"
    by (rule dvd_trans [of 4 100], simp, assumption) (rule dvd_trans [of 100 400], simp, assumption)
  show ?thesis
    unfolding DayFromYear_def DaysInYear_def a b c
    using d by (auto simp: mod_eq_0_iff_dvd)
qed

lemma month_of_less: "month_of L w < 12"
proof -
  have "length (takeWhile (\<lambda>s. s \<le> w) (month_starts L)) \<le> length (month_starts L)"
    by (rule length_takeWhile_le)
  then show ?thesis by (simp add: month_of_def month_starts_def)
qed

lemma MakeDay_of_parts:
  "MakeDay (YearFromDay d) (int (MonthFromDay d)) (DateFromDay d + n) = d + n"
proof -
  have m: "MonthFromDay d < 12" by (simp add: MonthFromDay_def month_of_less)
  then have "int (MonthFromDay d) div 12 = 0" "nat (int (MonthFromDay d) mod 12) = MonthFromDay d"
    by simp_all
  then show ?thesis
    by (simp add: MakeDay_def DateFromDay_def DayWithinYear_def InLeapYear_def Let_def)
qed

lemma length_month_starts: "length (month_starts L) = 12"
  by (simp add: month_starts_def)

lemma DaysInYear_bounds: "365 \<le> DaysInYear y" "DaysInYear y \<le> 366"
  by (simp_all add: DaysInYear_def)

lemma DayFromYear_less: "DayFromYear y < DayFromYear (y + 1)"
  using DayFromYear_step [of y] DaysInYear_bounds(1) [of y] by linarith

lemma DayFromYear_1970: "DayFromYear 1970 = 0"
  by (simp add: DayFromYear_def)

lemma DayFromYear_upper: "1970 \<le> y \<Longrightarrow> DayFromYear y \<le> 366 * (y - 1970)"
proof (induction y rule: int_ge_induct)
  case base
  show ?case by (simp add: DayFromYear_1970)
next
  case (step i)
  then show ?case
    using DayFromYear_step [of i] DaysInYear_bounds(2) [of i] by simp
qed

lemma DayFromYear_lower: "1970 \<le> y \<Longrightarrow> 365 * (y - 1970) \<le> DayFromYear y"
proof (induction y rule: int_ge_induct)
  case base
  show ?case by (simp add: DayFromYear_1970)
next
  case (step i)
  then show ?case
    using DayFromYear_step [of i] DaysInYear_bounds(1) [of i] by simp
qed

lemma DayFromYear_upper_neg: "y \<le> 1970 \<Longrightarrow> DayFromYear y \<le> 365 * (y - 1970)"
proof (induction y rule: int_le_induct)
  case base
  show ?case by (simp add: DayFromYear_1970)
next
  case (step i)
  then show ?case
    using DayFromYear_step [of "i - 1"] DaysInYear_bounds(1) [of "i - 1"] by simp
qed

lemma DayFromYear_mono: "y \<le> z \<Longrightarrow> DayFromYear y \<le> DayFromYear z"
proof (induction z rule: int_ge_induct)
  case base
  show ?case by simp
next
  case (step i)
  then show ?case using DayFromYear_less [of i] by linarith
qed

lemma DayFromYear_estimate:
  "DayFromYear (1970 + (if 0 \<le> d then d div 366 else d div 365)) \<le> d"
proof (cases "0 \<le> d")
  case True
  then have "0 \<le> d div 366" by simp
  then have "DayFromYear (1970 + d div 366) \<le> 366 * (d div 366)"
    using DayFromYear_upper [of "1970 + d div 366"] by simp
  also have "\<dots> \<le> d" by (simp add: mult.commute [of 366] )  
  finally show ?thesis using True by simp
next
  case False
  then have "d div 365 \<le> 0" by simp
  then have "DayFromYear (1970 + d div 365) \<le> 365 * (d div 365)"
    using DayFromYear_upper_neg [of "1970 + d div 365"] by simp
  also have "\<dots> \<le> d" by (simp add: mult.commute [of 365])
  finally show ?thesis using False by simp
qed

lemma year_up_spec:
  "DayFromYear y \<le> d \<Longrightarrow>
     DayFromYear (year_up y d) \<le> d \<and> d < DayFromYear (year_up y d + 1)"
proof (induction y d rule: year_up.induct)
  case (1 y d)
  show ?case
  proof (cases "DayFromYear (y + 1) \<le> d")
    case True
    then show ?thesis using "1.IH" by (subst (1 2) year_up.simps) simp
  next
    case False
    then show ?thesis using "1.prems" by (subst (1 2) year_up.simps) simp
  qed
qed

lemma YearFromDay_spec:
  "DayFromYear (YearFromDay d) \<le> d" "d < DayFromYear (YearFromDay d + 1)"
  using year_up_spec [OF DayFromYear_estimate [of d]] by (simp_all add: YearFromDay_def)

lemma YearFromDay_unique:
  assumes "DayFromYear y \<le> d" "d < DayFromYear (y + 1)"
  shows "YearFromDay d = y"
proof (rule ccontr)
  assume ne: "YearFromDay d \<noteq> y"
  let ?z = "YearFromDay d"
  show False
  proof (cases "?z < y")
    case True
    then have "DayFromYear (?z + 1) \<le> DayFromYear y" by (simp add: DayFromYear_mono)
    then show False using YearFromDay_spec(2) [of d] assms(1) by linarith
  next
    case False
    then have "y + 1 \<le> ?z" using ne by simp
    then have "DayFromYear (y + 1) \<le> DayFromYear ?z" by (rule DayFromYear_mono)
    then show False using YearFromDay_spec(1) [of d] assms(2) by linarith
  qed
qed


lemma DaysInYear_leap: "DaysInYear y = 365 + (if DaysInYear y = 366 then 1 else 0)"
  by (simp add: DaysInYear_def)

lemma InLeapYear_cases: "InLeapYear d = 0 \<or> InLeapYear d = 1"
  by (simp add: InLeapYear_def)

lemma DayWithinYear_bounds:
  "0 \<le> DayWithinYear d" "DayWithinYear d < 365 + InLeapYear d"
proof -
  show "0 \<le> DayWithinYear d"
    using YearFromDay_spec(1) [of d] by (simp add: DayWithinYear_def)
  have "d < DayFromYear (YearFromDay d) + DaysInYear (YearFromDay d)"
    using YearFromDay_spec(2) [of d] by (simp add: DayFromYear_step)
  then show "DayWithinYear d < 365 + InLeapYear d"
    using DaysInYear_leap [of "YearFromDay d"] by (simp add: DayWithinYear_def InLeapYear_def)
qed

lemma month_of_spec:
  assumes "L = 0 \<or> L = 1" "0 \<le> w" "w < 365 + L"
  shows "month_starts L ! month_of L w \<le> w"
    and "w < (month_starts L @ [365 + L]) ! (month_of L w + 1)"
  using assms by (auto simp: month_of_def month_starts_def)

lemma month_starts_nth_bounds:
  assumes "L = 0 \<or> L = 1" "m < 12"
  shows "0 \<le> month_starts L ! m" "month_starts L ! m \<le> 335"
proof -
  have "m = 0 \<or> m = 1 \<or> m = 2 \<or> m = 3 \<or> m = 4 \<or> m = 5 \<or> m = 6 \<or> m = 7
      \<or> m = 8 \<or> m = 9 \<or> m = 10 \<or> m = 11" using assms(2) by arith
  then show "0 \<le> month_starts L ! m" "month_starts L ! m \<le> 335"
    using assms(1) by (auto simp: month_starts_def)
qed

lemma month_lengths:
  assumes "L = 0 \<or> L = 1" "m < 12"
  shows "(month_starts L @ [365 + L]) ! (m + 1) - month_starts L ! m \<le> 31"
proof -
  have "m = 0 \<or> m = 1 \<or> m = 2 \<or> m = 3 \<or> m = 4 \<or> m = 5 \<or> m = 6 \<or> m = 7
      \<or> m = 8 \<or> m = 9 \<or> m = 10 \<or> m = 11" using assms(2) by arith
  then show ?thesis using assms(1) by (auto simp: month_starts_def)
qed

lemma DateFromDay_bounds: "1 \<le> DateFromDay d" "DateFromDay d \<le> 31"
proof -
  let ?L = "InLeapYear d" and ?w = "DayWithinYear d"
  have s: "month_starts ?L ! month_of ?L ?w \<le> ?w"
    "?w < (month_starts ?L @ [365 + ?L]) ! (month_of ?L ?w + 1)"
    using month_of_spec [OF InLeapYear_cases DayWithinYear_bounds] by blast+
  show "1 \<le> DateFromDay d" using s(1) by (simp add: DateFromDay_def MonthFromDay_def)
  have "(month_starts ?L @ [365 + ?L]) ! (month_of ?L ?w + 1) - month_starts ?L ! month_of ?L ?w \<le> 31"
    by (rule month_lengths [OF InLeapYear_cases month_of_less])
  then show "DateFromDay d \<le> 31"
    using s(2) by (simp add: DateFromDay_def MonthFromDay_def)
qed


lemma length_pad: "length (pad k n) = k"
  by (induction k arbitrary: n) simp_all

lemma digit_char_props:
  assumes "r < 10"
  shows "is_digit (digit_char r)" "digit_val (digit_char r) = r"
  using assms by (simp_all add: is_digit_def digit_val_def digit_char_def less_eq_char_def)

lemma list_all_pad: "list_all is_digit (pad k n)"
  by (induction k arbitrary: n) (simp_all add: digit_char_props)

lemma foldl_pad:
  "foldl (\<lambda>a c. 10 * a + digit_val c) a0 (pad k n) = a0 * 10 ^ k + n mod 10 ^ k"
proof (induction k arbitrary: n)
  case 0
  show ?case by simp
next
  case (Suc k)
  have h: "n mod (10 * 10 ^ k) = 10 * (n div 10 mod 10 ^ k) + n mod 10"
    by (rule mod_mult2_eq)
  have step: "foldl (\<lambda>a c. 10 * a + digit_val c) a0 (pad (Suc k) n) =
      10 * (a0 * 10 ^ k + n div 10 mod 10 ^ k) + n mod 10"
    by (simp add: Suc digit_char_props)
  show ?case unfolding step using h by (simp add: algebra_simps)
qed

lemma read_nat_pad:
  assumes "0 < k" "n < 10 ^ k"
  shows "read_nat (pad k n) = Some n"
proof -
  have "pad k n \<noteq> []" using assms(1) length_pad [of k n] by auto
  then show ?thesis using assms(2) by (simp add: read_nat_def list_all_pad foldl_pad)
qed

lemma toISOString_take10:
  assumes "0 \<le> YearFromDay (Day t)" "YearFromDay (Day t) \<le> 9999"
  shows "take 10 (toISOString t) =
    pad 4 (nat (YearFromDay (Day t))) @ ''-'' @ pad 2 (MonthFromDay (Day t) + 1) @ ''-'' @
    pad 2 (nat (DateFromDay (Day t)))"
  using assms by (simp add: toISOString_def Let_def length_pad)

lemma MakeDay_next_month:
  "d < MakeDay (YearFromDay d) (int (MonthFromDay d) + 1) 1"
proof -
  let ?L = "InLeapYear d" and ?w = "DayWithinYear d" and ?y = "YearFromDay d"
  let ?m = "MonthFromDay d"
  have s: "?w < (month_starts ?L @ [365 + ?L]) ! (?m + 1)"
    using month_of_spec(2) [OF InLeapYear_cases DayWithinYear_bounds] 
    by (simp add: MonthFromDay_def)
  have m: "?m < 12" by (simp add: MonthFromDay_def month_of_less)
  show ?thesis
  proof (cases "?m = 11")
    case True
    then have "MakeDay ?y (int ?m + 1) 1 = DayFromYear (?y + 1)"
      by (simp add: MakeDay_def month_starts_def)
    then show ?thesis using YearFromDay_spec(2) [of d] by simp
  next
    case False
    then have lt: "?m + 1 < 12" using m by simp
    then have "(int ?m + 1) div 12 = 0" "nat ((int ?m + 1) mod 12) = ?m + 1"
      "nat (int ?m + 1) = Suc ?m"
      by simp_all
    then have "MakeDay ?y (int ?m + 1) 1 = DayFromYear ?y + month_starts ?L ! (?m + 1)"
      by (simp add: MakeDay_def InLeapYear_def)
    moreover have "(month_starts ?L @ [365 + ?L]) ! (?m + 1) = month_starts ?L ! (?m + 1)"
      using lt length_month_starts [of ?L] by (simp add: nth_append)
    ultimately show ?thesis using s by (simp add: DayWithinYear_def)
  qed
qed

lemma Date_parse_date_part:
  assumes "0 \<le> YearFromDay d" "YearFromDay d \<le> 9999"
  shows "Date_parse (pad 4 (nat (YearFromDay d)) @ ''-'' @ pad 2 (MonthFromDay d + 1) @ ''-'' @
           pad 2 (nat (DateFromDay d))) = Some d"
proof -
  let ?y = "nat (YearFromDay d)" and ?m = "MonthFromDay d + 1" and ?dd = "nat (DateFromDay d)"
  let ?s = "pad 4 ?y @ ''-'' @ pad 2 ?m @ ''-'' @ pad 2 ?dd"
  have m: "MonthFromDay d < 12" by (simp add: MonthFromDay_def month_of_less)
  have ry: "read_nat (take 4 ?s) = Some ?y"
    using assms by (simp add: length_pad read_nat_pad)
  have rm: "read_nat (take 2 (drop 5 ?s)) = Some ?m"
    using m by (simp add: length_pad read_nat_pad)
  have rd: "read_nat (drop 8 ?s) = Some ?dd"
    using DateFromDay_bounds [of d] by (simp add: length_pad read_nat_pad)
  have sh: "length ?s = 10" "?s ! 4 = CHR ''-''" "?s ! 7 = CHR ''-''"
    by (simp_all add: length_pad nth_append)
  have day: "MakeDay (int ?y) (int ?m - 1) (int ?dd) = d"
    using MakeDay_of_parts [of d 0] assms(1) DateFromDay_bounds(1) [of d] by simp
  have nxt: "d < MakeDay (int ?y) (int ?m) 1"
    using MakeDay_next_month [of d] assms(1) by (simp add: add.commute)
  show "Date_parse ?s = Some d"
    unfolding Date_parse_def using sh ry rm rd day nxt m DateFromDay_bounds(1) [of d]
    by simp
qed

lemma Date_parse_toISOString:
  assumes "0 \<le> YearFromDay (Day t)" "YearFromDay (Day t) \<le> 9999"
  shows "Date_parse (take 10 (toISOString t)) = Some (Day t)"
  unfolding toISOString_take10 [OF assms] by (rule Date_parse_date_part [OF assms])

lemma digit_val_le: "is_digit c \<Longrightarrow> digit_val c \<le> 9"
  unfolding is_digit_def digit_val_def less_eq_char_def by simp arith

lemma foldl_digits_bound:
  "list_all is_digit s \<Longrightarrow>
     foldl (\<lambda>a c. 10 * a + digit_val c) a0 s < (a0 + 1) * 10 ^ length s"
proof (induction s arbitrary: a0)
  case Nil
  show ?case by simp
next
  case (Cons c cs)
  then have c: "digit_val c \<le> 9" and cs: "list_all is_digit cs"
    by (simp_all add: digit_val_le)
  have "foldl (\<lambda>a c. 10 * a + digit_val c) (10 * a0 + digit_val c) cs
          < (10 * a0 + digit_val c + 1) * 10 ^ length cs"
    by (rule Cons.IH [OF cs])
  also have "\<dots> \<le> (10 * a0 + 10) * 10 ^ length cs"
    by (rule mult_le_mono1) (use c in simp)
  finally show ?case by (simp add: algebra_simps)
qed

lemma read_nat_bound: "read_nat s = Some n \<Longrightarrow> n < 10 ^ length s"
  using foldl_digits_bound [of s 0] by (auto simp: read_nat_def split: if_splits)

lemma MakeDay_in_year:
  assumes "1 \<le> m" "m \<le> 12"
  shows "MakeDay y (int m - 1) dd =
           DayFromYear y + month_starts (if DaysInYear y = 366 then 1 else 0) ! (m - 1) + dd - 1"
proof -
  have "(int m - 1) div 12 = 0" "nat ((int m - 1) mod 12) = m - 1"
    using assms by (simp_all add: nat_diff_distrib')
  then show ?thesis by (simp add: MakeDay_def)
qed

lemma MakeDay_month_end:
  assumes "1 \<le> m" "m \<le> 12"
  shows "MakeDay y (int m) 1 \<le> DayFromYear (y + 1)"
proof (cases "m = 12")
  case True
  then show ?thesis by (simp add: MakeDay_def month_starts_def)
next
  case False
  let ?L = "if DaysInYear y = 366 then 1 else 0 :: int"
  from False assms have lt: "m < 12" by simp
  then have "int m div 12 = 0" "nat (int m mod 12) = m" by simp_all
  then have "MakeDay y (int m) 1 = DayFromYear y + month_starts ?L ! m"
    by (simp add: MakeDay_def)
  moreover have "month_starts ?L ! m \<le> 335"
    by (rule month_starts_nth_bounds(2) [OF _ lt]) simp
  ultimately show ?thesis
    using DayFromYear_step [of y] DaysInYear_bounds(1) [of y] by simp
qed

lemma Date_parse_year:
  assumes "Date_parse s = Some d"
  shows "0 \<le> YearFromDay d" "YearFromDay d \<le> 9999"
proof -
  from assms obtain y m dd where
    y: "read_nat (take 4 s) = Some y" and len: "length s = 10" and
    m: "1 \<le> m" "m \<le> 12" and dd: "1 \<le> dd" and
    d: "d = MakeDay (int y) (int m - 1) (int dd)" and
    nx: "d < MakeDay (int y) (int m) 1"
    by (auto simp: Date_parse_def split: if_splits option.splits)
  let ?L = "if DaysInYear (int y) = 366 then 1 else 0 :: int"
  have "y < 10 ^ length (take 4 s)" by (rule read_nat_bound [OF y])
  then have y4: "y < 10000" using len by simp
  have "0 \<le> month_starts ?L ! (m - 1)"
    by (rule month_starts_nth_bounds(1)) (use m in simp_all)
  then have lo: "DayFromYear (int y) \<le> d"
    using dd by (simp add: d MakeDay_in_year [OF m])
  have hi: "d < DayFromYear (int y + 1)"
    using nx MakeDay_month_end [OF m, of "int y"] by linarith
  have "YearFromDay d = int y" by (rule YearFromDay_unique [OF lo hi])
  then show "0 \<le> YearFromDay d" "YearFromDay d \<le> 9999" using y4 by simp_all
qed

lemma day_range_of_year:
  "0 \<le> YearFromDay d \<and> YearFromDay d \<le> 9999 \<longleftrightarrow> - 719528 \<le> d \<and> d < 2932897"
proof -
  have a: "DayFromYear 0 = - 719528" "DayFromYear 10000 = 2932897"
    by (simp_all add: DayFromYear_def)
  show ?thesis
  proof
    assume h: "0 \<le> YearFromDay d \<and> YearFromDay d \<le> 9999"
    then have "DayFromYear 0 \<le> DayFromYear (YearFromDay d)"
      "DayFromYear (YearFromDay d + 1) \<le> DayFromYear 10000"
      by (simp_all add: DayFromYear_mono)
    then show "- 719528 \<le> d \<and> d < 2932897"
      using YearFromDay_spec [of d] a by linarith
  next
    assume h: "- 719528 \<le> d \<and> d < 2932897"
    have "\<not> YearFromDay d < 0"
    proof
      assume "YearFromDay d < 0"
      then have "DayFromYear (YearFromDay d + 1) \<le> DayFromYear 0" by (simp add: DayFromYear_mono)
      then show False using YearFromDay_spec(2) [of d] a h by linarith
    qed
    moreover have "\<not> 10000 \<le> YearFromDay d"
    proof
      assume "10000 \<le> YearFromDay d"
      then have "DayFromYear 10000 \<le> DayFromYear (YearFromDay d)" by (rule DayFromYear_mono)
      then show False using YearFromDay_spec(1) [of d] a h by linarith
    qed
    ultimately show "0 \<le> YearFromDay d \<and> YearFromDay d \<le> 9999" by simp
  qed
qed

lemma Date_parse_range:
  assumes "Date_parse s = Some d"
  shows "- 719528 \<le> d" "d < 2932897"
  using Date_parse_year [OF assms] day_range_of_year [of d] by simp_all

subsection \<open>Time values and time zones\<close>

lemma TimeWithinDay_bounds: "0 \<le> TimeWithinDay t" "TimeWithinDay t < msPerDay"
  by (simp_all add: TimeWithinDay_def msPerDay_def)

lemma MakeDate_Day: "MakeDate (Day t) (TimeWithinDay t) = t"
  by (simp add: MakeDate_def Day_def TimeWithinDay_def)

lemma Day_MakeDate: "Day (MakeDate d 0) = d"
  by (simp add: MakeDate_def Day_def msPerDay_def)

lemma setDate_offsets:
  "setDate tza t (getDate tza t + n) =
     TimeClip (LocalTime tza t + n * msPerDay - tza (LocalTime tza t + n * msPerDay) False)"
proof -
  let ?lt = "LocalTime tza t"
  have "MakeDate (MakeDay (YearFromDay (Day ?lt)) (int (MonthFromDay (Day ?lt)))
                    (DateFromDay (Day ?lt) + n)) (TimeWithinDay ?lt)
        = MakeDate (Day ?lt + n) (TimeWithinDay ?lt)"
    by (simp add: MakeDay_of_parts)
  also have "\<dots> = MakeDate (Day ?lt) (TimeWithinDay ?lt) + n * msPerDay"
    by (simp add: MakeDate_def algebra_simps)
  also have "\<dots> = ?lt + n * msPerDay" by (simp add: MakeDate_Day)
  finally show ?thesis
    by (simp add: setDate_def getDate_def Let_def UTC_def)
qed

lemma setDate_constant:
  "setDate (constant_zone c) t (getDate (constant_zone c) t + n) = TimeClip (t + n * msPerDay)"
  by (simp add: setDate_offsets constant_zone_def LocalTime_def)

lemma Day_decompose: "t = Day t * msPerDay + TimeWithinDay t"
  by (simp add: Day_def TimeWithinDay_def)

lemma ms_lower_day: "(k::int) * 86400000 \<le> D * 86400000 + w \<Longrightarrow> w < 86400000 \<Longrightarrow> k \<le> D"
  by linarith
lemma ms_upper_day: "(D::int) * 86400000 + w < (k + 1) * 86400000 \<Longrightarrow> 0 \<le> w \<Longrightarrow> D \<le> k"
proof -
  assume "D * 86400000 + w < (k + 1) * 86400000" "0 \<le> w"
  then have "D * 86400000 < (k + 1) * 86400000" by linarith
  then have "D < k + 1" by simp
  then show "D \<le> k" by simp
qed

lemma Day_between:
  assumes "k * msPerDay \<le> u" "u < (k' + 1) * msPerDay"
  shows "k \<le> Day u" "Day u \<le> k'"
proof -
  have d: "u = Day u * 86400000 + TimeWithinDay u"
    using Day_decompose [of u] by (simp add: msPerDay_def)
  have w: "0 \<le> TimeWithinDay u" "TimeWithinDay u < 86400000"
    using TimeWithinDay_bounds [of u] by (simp_all add: msPerDay_def)
  have "k * 86400000 \<le> Day u * 86400000 + TimeWithinDay u"
    using assms(1) d by (simp add: msPerDay_def)
  then show "k \<le> Day u" using w(2) by (rule ms_lower_day)
  have "Day u * 86400000 + TimeWithinDay u < (k' + 1) * 86400000"
    using assms(2) d by (simp add: msPerDay_def)
  then show "Day u \<le> k'" using w(1) by (rule ms_upper_day)
qed

lemma Date_parse_new_Date:
  "Date_parse today = Some d \<Longrightarrow> new_Date today = Some (MakeDate d 0)"
  by (simp add: new_Date_def)

lemma date_string_valid:
  assumes "- 719528 \<le> d" "d < 2932897"
  shows "Date_parse (date_string d) = Some d"
proof -
  have "0 \<le> YearFromDay (Day (MakeDate d 0))" "YearFromDay (Day (MakeDate d 0)) \<le> 9999"
    using assms day_range_of_year [of d] by (simp_all add: Day_MakeDate)
  from Date_parse_toISOString [OF this] show ?thesis
    by (simp add: date_string_def Day_MakeDate)
qed

lemma addDays_constant:
  assumes "Date_parse today = Some d" "\<bar>n\<bar> \<le> 1000000"
  shows "addDays (constant_zone c) today (Some n) = Inr (date_string (d + n))"
proof -
  have "\<bar>MakeDate d 0 + n * msPerDay\<bar> \<le> 8640000000000000"
    using Date_parse_range [OF assms(1)] assms(2) by (simp add: MakeDate_def msPerDay_def)
  moreover have "MakeDate d 0 + n * msPerDay = MakeDate (d + n) 0"
    by (simp add: MakeDate_def algebra_simps)
  ultimately show ?thesis
    by (simp add: addDays_def Date_parse_new_Date [OF assms(1)] setDate_constant TimeClip_def
        date_string_def)
qed

lemma addDays_zone:
  assumes "zone_ok tza" "Date_parse today = Some d" "\<bar>n\<bar> \<le> 1000000"
  shows "\<exists>u. addDays tza today (Some n) = Inr (take 10 (toISOString u))
           \<and> d + n - 2 \<le> Day u \<and> Day u \<le> d + n + 2"
proof -
  let ?t = "MakeDate d 0"
  let ?lt = "LocalTime tza ?t"
  let ?u = "?lt + n * msPerDay - tza (?lt + n * msPerDay) False"
  have o: "\<bar>tza ?t True\<bar> \<le> msPerDay" "\<bar>tza (?lt + n * msPerDay) False\<bar> \<le> msPerDay"
    using assms(1) by (simp_all add: zone_ok_def)
  have e: "?u = (d + n) * msPerDay + (tza ?t True - tza (?lt + n * msPerDay) False)"
    by (simp add: MakeDate_def LocalTime_def algebra_simps)
  have lo: "(d + n - 2) * msPerDay \<le> ?u" and hi: "?u < (d + n + 3) * msPerDay"
    using o unfolding e by (simp_all add: msPerDay_def algebra_simps)
  have "\<bar>?u\<bar> \<le> 8640000000000000"
    using lo hi Date_parse_range [OF assms(2)] assms(3) by (simp add: msPerDay_def)
  then have a: "addDays tza today (Some n) = Inr (take 10 (toISOString ?u))"
    by (simp add: addDays_def Date_parse_new_Date [OF assms(2)] setDate_offsets TimeClip_def)
  have eq3: "d + n + 2 + 1 = d + n + 3" by simp
  have hi': "?u < (d + n + 2 + 1) * msPerDay" unfolding eq3 by (rule hi)
  have "d + n - 2 \<le> Day ?u" "Day ?u \<le> d + n + 2"
    by (rule Day_between [OF lo hi'])+
  then show ?thesis using a by blast
qed

lemma addDays_undefined: "addDays tza today None = Inl RangeError"
  by (simp add: addDays_def split: option.splits)

section \<open>The order of date strings\<close>

lemma append_less_same_length:
  fixes xs ys :: "'a::linorder list"
  assumes "length xs = length ys"
  shows "xs @ us < ys @ vs \<longleftrightarrow> xs < ys \<or> xs = ys \<and> us < vs"
  using assms by (induction xs ys rule: list_induct2) auto

lemma digit_char_less: "r < 10 \<Longrightarrow> s < 10 \<Longrightarrow> digit_char r < digit_char s \<longleftrightarrow> r < s"
  by (simp add: digit_char_def less_char_def)

lemma pad_inj:
  assumes "a < 10 ^ k" "b < 10 ^ k" "0 < k"
  shows "pad k a = pad k b \<longleftrightarrow> a = b"
proof
  assume "pad k a = pad k b"
  then have "read_nat (pad k a) = read_nat (pad k b)" by (rule arg_cong)
  then show "a = b"
    unfolding read_nat_pad [OF assms(3,1)] read_nat_pad [OF assms(3,2)] by simp
next
  assume "a = b"
  then show "pad k a = pad k b" by (rule arg_cong)
qed

lemma less_digits:
  fixes qa ra qb rb :: nat
  assumes "ra < 10" "rb < 10"
  shows "10 * qa + ra < 10 * qb + rb \<longleftrightarrow> qa < qb \<or> qa = qb \<and> ra < rb"
  using assms by linarith

lemma less_div_mod_10:
  fixes a b :: nat
  shows "a < b \<longleftrightarrow> a div 10 < b div 10 \<or> a div 10 = b div 10 \<and> a mod 10 < b mod 10"
proof -
  have "10 * (a div 10) + a mod 10 < 10 * (b div 10) + b mod 10
      \<longleftrightarrow> a div 10 < b div 10 \<or> a div 10 = b div 10 \<and> a mod 10 < b mod 10"
    by (rule less_digits) simp_all
  then show ?thesis by (simp only: mult_div_mod_eq)
qed

lemma pad_less:
  "a < 10 ^ k \<Longrightarrow> b < 10 ^ k \<Longrightarrow> pad k a < pad k b \<longleftrightarrow> a < b"
proof (induction k arbitrary: a b)
  case 0
  then show ?case by simp
next
  case (Suc k)
  have a10: "a < 10 ^ k * 10" and b10: "b < 10 ^ k * 10" using Suc.prems by simp_all
  have a: "a div 10 < 10 ^ k" by (rule less_mult_imp_div_less [OF a10])
  have b: "b div 10 < 10 ^ k" by (rule less_mult_imp_div_less [OF b10])
  have eq: "pad k (a div 10) = pad k (b div 10) \<longleftrightarrow> a div 10 = b div 10"
  proof (cases k)
    case 0
    then show ?thesis using a b by simp
  next
    case (Suc j)
    then show ?thesis using pad_inj [OF a b] by simp
  qed
  have d: "[digit_char (a mod 10)] < [digit_char (b mod 10)] \<longleftrightarrow> a mod 10 < b mod 10"
    by (simp add: digit_char_less)
  have "pad (Suc k) a < pad (Suc k) b \<longleftrightarrow>
      pad k (a div 10) < pad k (b div 10)
      \<or> pad k (a div 10) = pad k (b div 10) \<and> [digit_char (a mod 10)] < [digit_char (b mod 10)]"
    unfolding pad.simps by (rule append_less_same_length) (simp add: length_pad)
  also have "\<dots> \<longleftrightarrow> a div 10 < b div 10 \<or> a div 10 = b div 10 \<and> a mod 10 < b mod 10"
    unfolding Suc.IH [OF a b] eq d ..
  also have "\<dots> \<longleftrightarrow> a < b" by (rule less_div_mod_10 [symmetric])
  finally show ?case .
qed

lemma iso_fields_less:
  assumes "y1 < 10000" "y2 < 10000" "m1 < 100" "m2 < 100" "d1 < 100" "d2 < 100"
  shows "pad 4 y1 @ ''-'' @ pad 2 m1 @ ''-'' @ pad 2 d1
           < pad 4 y2 @ ''-'' @ pad 2 m2 @ ''-'' @ pad 2 d2
         \<longleftrightarrow> y1 < y2 \<or> y1 = y2 \<and> (m1 < m2 \<or> m1 = m2 \<and> d1 < d2)"
proof -
  have y: "pad 4 y1 < pad 4 y2 \<longleftrightarrow> y1 < y2" "pad 4 y1 = pad 4 y2 \<longleftrightarrow> y1 = y2"
    using assms(1,2) by (simp_all add: pad_less pad_inj)
  have m: "pad 2 m1 < pad 2 m2 \<longleftrightarrow> m1 < m2" "pad 2 m1 = pad 2 m2 \<longleftrightarrow> m1 = m2"
    using assms(3,4) by (simp_all add: pad_less pad_inj)
  have d: "pad 2 d1 < pad 2 d2 \<longleftrightarrow> d1 < d2"
    using assms(5,6) by (simp add: pad_less)
  have "pad 4 y1 @ (''-'' @ pad 2 m1 @ ''-'' @ pad 2 d1)
           < pad 4 y2 @ (''-'' @ pad 2 m2 @ ''-'' @ pad 2 d2)
        \<longleftrightarrow> pad 4 y1 < pad 4 y2
            \<or> pad 4 y1 = pad 4 y2
              \<and> ''-'' @ pad 2 m1 @ ''-'' @ pad 2 d1 < ''-'' @ pad 2 m2 @ ''-'' @ pad 2 d2"
    by (rule append_less_same_length) (simp add: length_pad)
  moreover have "''-'' @ pad 2 m1 @ ''-'' @ pad 2 d1 < ''-'' @ pad 2 m2 @ ''-'' @ pad 2 d2
        \<longleftrightarrow> pad 2 m1 @ (''-'' @ pad 2 d1) < pad 2 m2 @ (''-'' @ pad 2 d2)"
    by simp
  moreover have "pad 2 m1 @ (''-'' @ pad 2 d1) < pad 2 m2 @ (''-'' @ pad 2 d2)
        \<longleftrightarrow> pad 2 m1 < pad 2 m2 \<or> pad 2 m1 = pad 2 m2 \<and> ''-'' @ pad 2 d1 < ''-'' @ pad 2 d2"
    by (rule append_less_same_length) (simp add: length_pad)
  moreover have "''-'' @ pad 2 d1 < ''-'' @ pad 2 d2 \<longleftrightarrow> pad 2 d1 < pad 2 d2" by simp
  ultimately show ?thesis using y m d by simp
qed




lemma digit_char_val: "is_digit c \<Longrightarrow> digit_char (digit_val c) = c"
  by (simp add: is_digit_def digit_val_def digit_char_def less_eq_char_def)

lemma pad_foldl_digits:
  assumes "list_all is_digit s"
  shows "pad (length s) (foldl (\<lambda>a c. 10 * a + digit_val c) 0 s) = s"
  using assms
proof (induction s rule: rev_induct)
  case Nil
  show ?case by simp
next
  case (snoc c s)
  then have c: "is_digit c" and s: "list_all is_digit s" by simp_all
  have v: "digit_val c < 10" using digit_val_le [OF c] by simp
  show ?case using snoc.IH [OF s] v by (simp add: digit_char_val [OF c])
qed

lemma pad_read_nat: "read_nat s = Some n \<Longrightarrow> pad (length s) n = s"
  by (auto simp: read_nat_def pad_foldl_digits split: if_splits)

lemma sorted_month_starts: "L = 0 \<or> L = 1 \<Longrightarrow> sorted (month_starts L)"
  by (auto simp: month_starts_def)

lemma month_starts_mono:
  assumes "L = 0 \<or> L = 1" "i \<le> j" "j < 12"
  shows "month_starts L ! i \<le> month_starts L ! j"
  by (rule sorted_nth_mono [OF sorted_month_starts [OF assms(1)] assms(2)])
     (simp add: length_month_starts assms(3))

text \<open>The fields of a date string.\<close>

lemma Date_parse_fields:
  assumes "Date_parse s = Some d"
  obtains y m dd where
    "s = pad 4 y @ ''-'' @ pad 2 m @ ''-'' @ pad 2 dd"
    "y < 10000" "1 \<le> m" "m \<le> 12" "1 \<le> dd" "dd < 100"
    "d = MakeDay (int y) (int m - 1) (int dd)" "d < MakeDay (int y) (int m) 1"
proof -
  from assms obtain y m dd where
    y: "read_nat (take 4 s) = Some y" and mm: "read_nat (take 2 (drop 5 s)) = Some m" and
    rd: "read_nat (drop 8 s) = Some dd" and len: "length s = 10" and
    h4: "s ! 4 = CHR ''-''" and h7: "s ! 7 = CHR ''-''" and
    m: "1 \<le> m" "m \<le> 12" and dd: "1 \<le> dd" and
    d: "d = MakeDay (int y) (int m - 1) (int dd)" and
    nx: "d < MakeDay (int y) (int m) 1"
    by (auto simp: Date_parse_def split: if_splits option.splits)
  have py: "pad 4 y = take 4 s" using pad_read_nat [OF y] len by simp
  have pm: "pad 2 m = take 2 (drop 5 s)" using pad_read_nat [OF mm] len by simp
  have pd: "pad 2 dd = drop 8 s" using pad_read_nat [OF rd] len by simp
  have "y < 10 ^ length (take 4 s)" by (rule read_nat_bound [OF y])
  then have y4: "y < 10000" using len by simp
  have "dd < 10 ^ length (drop 8 s)" by (rule read_nat_bound [OF rd])
  then have d2: "dd < 100" using len by simp
  have a: "drop 4 s = s ! 4 # drop 5 s" using Cons_nth_drop_Suc [of 4 s] len by simp
  have b: "drop 7 s = s ! 7 # drop 8 s" using Cons_nth_drop_Suc [of 7 s] len by simp
  have c: "drop 5 s = take 2 (drop 5 s) @ drop 7 s"
    using append_take_drop_id [of 2 "drop 5 s"] by simp
  have "s = take 4 s @ drop 4 s" by simp
  also have "\<dots> = take 4 s @ ''-'' @ drop 5 s" by (simp add: a h4)
  also have "drop 5 s = take 2 (drop 5 s) @ ''-'' @ drop 8 s" using c by (simp add: b h7)
  finally have "s = pad 4 y @ ''-'' @ pad 2 m @ ''-'' @ pad 2 dd" by (simp add: py pm pd)
  then show ?thesis using that y4 m dd d2 d nx by blast
qed

lemma fields_day_less:
  assumes m1: "1 \<le> m1" "m1 \<le> 12" and m2: "1 \<le> m2" "m2 \<le> 12"
    and dd: "1 \<le> dd1" "1 \<le> dd2"
    and n1: "MakeDay (int y1) (int m1 - 1) (int dd1) < MakeDay (int y1) (int m1) 1"
    and lt: "y1 < y2 \<or> y1 = y2 \<and> (m1 < m2 \<or> m1 = m2 \<and> dd1 < dd2)"
  shows "MakeDay (int y1) (int m1 - 1) (int dd1) < MakeDay (int y2) (int m2 - 1) (int dd2)"
proof -
  let ?L1 = "if DaysInYear (int y1) = 366 then 1 else 0 :: int"
  let ?L2 = "if DaysInYear (int y2) = 366 then 1 else 0 :: int"
  have lo2: "DayFromYear (int y2) + month_starts ?L2 ! (m2 - 1)
      \<le> MakeDay (int y2) (int m2 - 1) (int dd2)"
    using dd(2) by (simp add: MakeDay_in_year [OF m2])
  have s2: "0 \<le> month_starts ?L2 ! (m2 - 1)"
    by (rule month_starts_nth_bounds(1)) (use m2 in simp_all)
  consider "y1 < y2" | "y1 = y2" "m1 < m2" | "y1 = y2" "m1 = m2" "dd1 < dd2"
    using lt by blast
  then show ?thesis
  proof cases
    case 1
    then have "DayFromYear (int y1 + 1) \<le> DayFromYear (int y2)"
      by (intro DayFromYear_mono) simp
    then show ?thesis
      using n1 MakeDay_month_end [OF m1, of "int y1"] lo2 s2 by linarith
  next
    case 2
    then have lt12: "m1 < 12" using m2 by simp
    then have "int m1 div 12 = 0" "nat (int m1 mod 12) = m1" by simp_all
    then have e: "MakeDay (int y1) (int m1) 1 = DayFromYear (int y1) + month_starts ?L1 ! m1"
      by (simp add: MakeDay_def)
    have "month_starts ?L1 ! m1 \<le> month_starts ?L1 ! (m2 - 1)"
      by (rule month_starts_mono) (use 2 m2 in simp_all)
    then show ?thesis using n1 e lo2 2(1) by simp
  next
    case 3
    then show ?thesis by (simp add: MakeDay_in_year [OF m2])
  qed
qed

text \<open>On date strings the order of the code units is the order of the days.\<close>

lemma Date_parse_less:
  assumes "Date_parse a = Some da" "Date_parse b = Some db"
  shows "a < b \<longleftrightarrow> da < db"
proof -
  from assms(1) obtain y1 m1 dd1 where
    a: "a = pad 4 y1 @ ''-'' @ pad 2 m1 @ ''-'' @ pad 2 dd1" and
    r1: "y1 < 10000" "1 \<le> m1" "m1 \<le> 12" "1 \<le> dd1" "dd1 < 100" and
    da: "da = MakeDay (int y1) (int m1 - 1) (int dd1)" and
    n1: "da < MakeDay (int y1) (int m1) 1"
    by (rule Date_parse_fields)
  from assms(2) obtain y2 m2 dd2 where
    b: "b = pad 4 y2 @ ''-'' @ pad 2 m2 @ ''-'' @ pad 2 dd2" and
    r2: "y2 < 10000" "1 \<le> m2" "m2 \<le> 12" "1 \<le> dd2" "dd2 < 100" and
    db: "db = MakeDay (int y2) (int m2 - 1) (int dd2)" and
    n2: "db < MakeDay (int y2) (int m2) 1"
    by (rule Date_parse_fields)
  let ?lt = "y1 < y2 \<or> y1 = y2 \<and> (m1 < m2 \<or> m1 = m2 \<and> dd1 < dd2)"
  let ?gt = "y2 < y1 \<or> y2 = y1 \<and> (m2 < m1 \<or> m2 = m1 \<and> dd2 < dd1)"
  have s: "a < b \<longleftrightarrow> ?lt"
    unfolding a b by (rule iso_fields_less) (use r1 r2 in simp_all)
  have f: "?lt \<Longrightarrow> da < db"
    unfolding da db using r1 r2 n1 [unfolded da] by (intro fields_day_less) simp_all
  have g: "?gt \<Longrightarrow> db < da"
    unfolding da db using r1 r2 n2 [unfolded db] by (intro fields_day_less) simp_all
  have e: "\<not> ?lt \<Longrightarrow> \<not> ?gt \<Longrightarrow> da = db" unfolding da db by auto
  show ?thesis using s f g e by fastforce
qed

lemma Date_parse_le:
  assumes "Date_parse a = Some da" "Date_parse b = Some db"
  shows "a \<le> b \<longleftrightarrow> da \<le> db"
  using Date_parse_less [OF assms(2,1)] by (simp add: not_less [symmetric])

section \<open>The scheduler\<close>

lemma transition_table_ge: "1 \<le> transition_table r B"
  by (cases r) (simp_all add: clamp_def)

lemma interval_lookup:
  assumes "0 \<le> b" "b \<le> 5"
  shows "js_index LEITNER_INTERVALS b = Some (LEITNER_INTERVALS ! nat b)"
    and "0 \<le> LEITNER_INTERVALS ! nat b" and "LEITNER_INTERVALS ! nat b \<le> 30"
proof -
  have "b = 0 \<or> b = 1 \<or> b = 2 \<or> b = 3 \<or> b = 4 \<or> b = 5" using assms by arith
  then show "js_index LEITNER_INTERVALS b = Some (LEITNER_INTERVALS ! nat b)"
    "0 \<le> LEITNER_INTERVALS ! nat b" "LEITNER_INTERVALS ! nat b \<le> 30"
    by (auto simp: js_index_def LEITNER_INTERVALS_def)
qed

lemma interval_lookup_none: "5 < b \<Longrightarrow> js_index LEITNER_INTERVALS b = None"
  by (simp add: js_index_def LEITNER_INTERVALS_def)

lemma scheduleNext_unfold:
  "scheduleNext tza today now t r =
     (case addDays tza today (js_index LEITNER_INTERVALS (transition_table r (bucket t))) of
        Inl e \<Rightarrow> Inl e
      | Inr due' \<Rightarrow>
          Inr (t\<lparr>bucket := transition_table r (bucket t), due := due',
                 history := history t @ [(now, r)]\<rparr>))"
  by (cases r) (simp_all add: scheduleNext_def clamp_def Let_def split: sum.splits)

lemma scheduleNext_beyond_table:
  "5 < transition_table r (bucket t) \<Longrightarrow> scheduleNext tza today now t r = Inl RangeError"
  by (simp add: scheduleNext_unfold interval_lookup_none addDays_undefined)

lemma scheduleNext_constant:
  assumes "Date_parse today = Some d"
  shows "scheduleNext (constant_zone c) today now t r =
     (if transition_table r (bucket t) \<le> 5
      then Inr (t\<lparr>bucket := transition_table r (bucket t),
                   due := date_string (d + LEITNER_INTERVALS ! nat (transition_table r (bucket t))),
                   history := history t @ [(now, r)]\<rparr>)
      else Inl RangeError)"
proof (cases "transition_table r (bucket t) \<le> 5")
  case True
  let ?b = "transition_table r (bucket t)"
  have b: "0 \<le> ?b" using transition_table_ge [of r "bucket t"] by linarith
  have "\<bar>LEITNER_INTERVALS ! nat ?b\<bar> \<le> 1000000"
    using interval_lookup(2,3) [OF b True] by linarith
  then have "addDays (constant_zone c) today (Some (LEITNER_INTERVALS ! nat ?b)) =
      Inr (date_string (d + LEITNER_INTERVALS ! nat ?b))"
    by (rule addDays_constant [OF assms])
  then show ?thesis
    using True by (simp add: scheduleNext_unfold interval_lookup(1) [OF b True])
next
  case False
  then show ?thesis by (simp add: scheduleNext_beyond_table)
qed

lemma scheduleNext_zone:
  assumes "zone_ok tza" "Date_parse today = Some d" "transition_table r (bucket t) \<le> 5"
  shows "\<exists>u. scheduleNext tza today now t r =
           Inr (t\<lparr>bucket := transition_table r (bucket t), due := take 10 (toISOString u),
                  history := history t @ [(now, r)]\<rparr>)
         \<and> d + LEITNER_INTERVALS ! nat (transition_table r (bucket t)) - 2 \<le> Day u
         \<and> Day u \<le> d + LEITNER_INTERVALS ! nat (transition_table r (bucket t)) + 2"
proof -
  let ?b = "transition_table r (bucket t)"
  let ?n = "LEITNER_INTERVALS ! nat ?b"
  have b: "0 \<le> ?b" using transition_table_ge [of r "bucket t"] by linarith
  have "\<bar>?n\<bar> \<le> 1000000" using interval_lookup(2,3) [OF b assms(3)] by linarith
  from addDays_zone [OF assms(1,2) this] obtain u where
    "addDays tza today (Some ?n) = Inr (take 10 (toISOString u))"
    "d + ?n - 2 \<le> Day u" "Day u \<le> d + ?n + 2"
    by blast
  then show ?thesis
    by (intro exI [of _ u]) (simp add: scheduleNext_unfold interval_lookup(1) [OF b assms(3)])
qed

lemma scheduleNext_returns:
  assumes "zone_ok tza" "Date_parse today = Some d" "0 \<le> bucket t" "bucket t \<le> 5"
  shows "\<exists>t'. scheduleNext tza today now t r = Inr t'"
proof -
  have "transition_table r (bucket t) \<le> 5"
    using assms(3,4) by (cases r) (auto simp: clamp_def)
  from scheduleNext_zone [OF assms(1,2) this] show ?thesis by blast
qed

lemma today_parse: "Date_parse ''2024-03-05'' = Some 19787"
  by code_simp

lemma today_plus_14: "date_string 19801 = ''2024-03-19''"
  by code_simp

lemma zone_ok_constant: "\<bar>c\<bar> \<le> msPerDay \<Longrightarrow> zone_ok (constant_zone c)"
  by (simp add: zone_ok_def constant_zone_def)

lemma zone_ok_new_york: "zone_ok zone_new_york"
  by (simp add: zone_ok_def zone_new_york_def msPerDay_def)

text \<open>In a time zone with a constant offset, the due date is today plus the interval
  of the new bucket.\<close>

lemma scheduleNext_due_constant_zone:
  assumes "Date_parse today = Some d"
    and "scheduleNext (constant_zone c) today now t r = Inr t'"
  shows "\<exists>n. js_index LEITNER_INTERVALS (bucket t') = Some n \<and> due t' = date_string (d + n)"
proof -
  let ?b = "transition_table r (bucket t)"
  have le: "?b \<le> 5"
    using assms(2) by (simp add: scheduleNext_constant [OF assms(1)] split: if_splits)
  have ge: "0 \<le> ?b" using transition_table_ge [of r "bucket t"] by linarith
  have "bucket t' = ?b" "due t' = date_string (d + LEITNER_INTERVALS ! nat ?b)"
    using assms(2) le by (auto simp: scheduleNext_constant [OF assms(1)])
  then show ?thesis using interval_lookup(1) [OF ge le] by simp
qed

subsection \<open>The claims about the scheduler\<close>

text \<open>
  C1. For every card whose bucket B is one of 1..5 and every rating, \<open>scheduleNext\<close>
  returns a card, and the bucket of that card is the entry of the transition table:
  again gives max(1, B-1), hard gives max(1, B), good gives clamp(B+1, 1, 5) and easy
  gives clamp(B+2, 2, 5). The clock is assumed to give a date \<open>today\<close> of the form
  YYYY-MM-DD, and the offsets of the time zone to stay within a day.
\<close>

theorem scheduleNext_bucket_table:
  assumes "zone_ok tza" and "Date_parse today = Some d" and "bucket t \<in> {1, 2, 3, 4, 5}"
  shows "\<exists>t'. scheduleNext tza today now t r = Inr t'
            \<and> bucket t' = transition_table r (bucket t)"
proof -
  have "transition_table r (bucket t) \<le> 5"
    using assms(3) by (cases r) (auto simp: clamp_def)
  from scheduleNext_zone [OF assms(1,2) this, of now] show ?thesis by auto
qed

theorem scheduleNext_bucket_table_witness:
  "zone_ok zone_new_york \<and> Date_parse ''2024-03-05'' = Some 19787
   \<and> bucket (card_kpi\<lparr>bucket := 1\<rparr>) \<in> {1, 2, 3, 4, 5}
   \<and> (\<exists>t'. scheduleNext zone_new_york ''2024-03-05'' ''2024-03-05T09:30:00.000Z''
              (card_kpi\<lparr>bucket := 1\<rparr>) Easy = Inr t' \<and> bucket t' = 3)"
proof -
  have b: "bucket (card_kpi\<lparr>bucket := 1\<rparr>) \<in> {1, 2, 3, 4, 5}" by simp
  from scheduleNext_bucket_table [OF zone_ok_new_york today_parse b,
      of "''2024-03-05T09:30:00.000Z''" Easy]
  show ?thesis using today_parse zone_ok_new_york by (simp add: clamp_def)
qed

text \<open>
  C2, at the failing input. On 2024-03-05, in a time zone that moves its clocks forward
  on 2024-03-10, a card of bucket 3 rated good gets bucket 4, whose interval is 14
  days, and the due date 2024-03-18: 13 days after today, not the 14 days that give
  2024-03-19. \<open>addDays\<close> reads the date as midnight UTC, adds the days in local time and
  writes the UTC date of the result, which is 23:00 of the day before.
\<close>

theorem scheduleNext_due_new_york:
  "Date_parse ''2024-03-05'' = Some 19787
   \<and> scheduleNext zone_new_york ''2024-03-05'' ''2024-03-05T09:30:00.000Z'' card_kpi Good
       = Inr (card_kpi\<lparr>bucket := 4, due := ''2024-03-18'',
                history := [(''2024-02-23T08:00:00.000Z'', Good),
                            (''2024-03-05T09:30:00.000Z'', Good)]\<rparr>)
   \<and> js_index LEITNER_INTERVALS 4 = Some 14
   \<and> date_string (19787 + 14) = ''2024-03-19''
   \<and> date_string (19787 + 13) = ''2024-03-18''"
  by code_simp

text \<open>
  C5. For every card and rating, the history of the card that \<open>scheduleNext\<close> returns is
  the history of the input with one entry (the time stamp and the rating) appended: it
  is one longer, and every earlier entry is unchanged and in its place. \<open>scheduleNext\<close>
  is the only operation of the scheduler, so the scheduler never removes or reorders
  an entry.
\<close>

theorem scheduleNext_history_append:
  assumes "scheduleNext tza today now t r = Inr t'"
  shows "history t' = history t @ [(now, r)]
    \<and> length (history t') = length (history t) + 1
    \<and> take (length (history t)) (history t') = history t
    \<and> (\<forall>i<length (history t). history t' ! i = history t ! i)"
proof -
  have "history t' = history t @ [(now, r)]"
    using assms by (auto simp: scheduleNext_unfold split: sum.splits)
  then show ?thesis by (simp add: nth_append)
qed

theorem scheduleNext_history_append_witness:
  "\<exists>t'. scheduleNext zone_new_york ''2024-03-05'' ''2024-03-05T09:30:00.000Z'' card_kpi Hard
          = Inr t'
     \<and> history t' = [(''2024-02-23T08:00:00.000Z'', Good), (''2024-03-05T09:30:00.000Z'', Hard)]"
proof -
  have "0 \<le> bucket card_kpi" "bucket card_kpi \<le> 5" by (simp_all add: card_kpi_def)
  from scheduleNext_returns [OF zone_ok_new_york today_parse this] obtain t' where
    t': "scheduleNext zone_new_york ''2024-03-05'' ''2024-03-05T09:30:00.000Z'' card_kpi Hard
           = Inr t'"
    by blast
  from scheduleNext_history_append [OF t'] have
    "history t' = [(''2024-02-23T08:00:00.000Z'', Good), (''2024-03-05T09:30:00.000Z'', Hard)]"
    by (simp add: card_kpi_def)
  then show ?thesis using t' by blast
qed

text \<open>
  C8, as the specification states it: for every card with bucket at least 0 and every
  rating, \<open>scheduleNext\<close> completes without an error. This fails for a card of bucket 6
  rated hard: the new bucket is 6, the table has no entry 6, the interval is
  \<open>undefined\<close>, the date is invalid and \<open>toISOString\<close> throws a RangeError.
\<close>

theorem scheduleNext_bucket_6_hard_throws:
  "0 \<le> bucket (card_kpi\<lparr>bucket := 6\<rparr>)
   \<and> js_index LEITNER_INTERVALS (transition_table Hard (bucket (card_kpi\<lparr>bucket := 6\<rparr>))) = None
   \<and> scheduleNext (constant_zone 10800000) ''2024-03-05'' ''2024-03-05T09:30:00.000Z''
        (card_kpi\<lparr>bucket := 6\<rparr>) Hard
       = Inl RangeError"
  by (simp add: scheduleNext_beyond_table interval_lookup_none)

text \<open>
  C8, amended: for every card whose bucket is one of 0..5 and every rating,
  \<open>scheduleNext\<close> completes without an error: the new bucket is an index of the interval
  table, and the due date is a valid calendar date, at most two days from the day
  \<open>d + n\<close> for today's day \<open>d\<close> and the interval \<open>n\<close>. The clock is assumed to give a
  date \<open>today\<close> of the form YYYY-MM-DD from 1970-01-03 to 9999-11-29, so that the due
  date has a year of four digits, and the offsets of the time zone to stay within a day.
\<close>

theorem scheduleNext_completes:
  assumes "zone_ok tza" and "Date_parse today = Some d" and "2 \<le> d" and "d + 32 < 2932897"
    and "0 \<le> bucket t" and "bucket t \<le> 5"
  shows "\<exists>t' n d'. scheduleNext tza today now t r = Inr t'
    \<and> js_index LEITNER_INTERVALS (bucket t') = Some n
    \<and> Date_parse (due t') = Some d' \<and> d + n - 2 \<le> d' \<and> d' \<le> d + n + 2"
proof -
  let ?b = "transition_table r (bucket t)"
  let ?n = "LEITNER_INTERVALS ! nat ?b"
  have le: "?b \<le> 5" using assms(5,6) by (cases r) (auto simp: clamp_def)
  have ge: "0 \<le> ?b" using transition_table_ge [of r "bucket t"] by linarith
  have n: "0 \<le> ?n" "?n \<le> 30" by (rule interval_lookup(2,3) [OF ge le])+
  from scheduleNext_zone [OF assms(1,2) le, of now] obtain u where
    u: "scheduleNext tza today now t r =
           Inr (t\<lparr>bucket := ?b, due := take 10 (toISOString u),
                  history := history t @ [(now, r)]\<rparr>)"
      "d + ?n - 2 \<le> Day u" "Day u \<le> d + ?n + 2"
    by blast
  have "- 719528 \<le> Day u" "Day u < 2932897" using u(2,3) n assms(3,4) by linarith+
  then have "0 \<le> YearFromDay (Day u)" "YearFromDay (Day u) \<le> 9999"
    using day_range_of_year [of "Day u"] by simp_all
  then have "Date_parse (take 10 (toISOString u)) = Some (Day u)"
    by (rule Date_parse_toISOString)
  then show ?thesis
    using u interval_lookup(1) [OF ge le] by simp
qed

theorem scheduleNext_completes_witness:
  "zone_ok zone_new_york \<and> Date_parse ''2024-03-05'' = Some 19787
   \<and> (2::int) \<le> 19787 \<and> (19787::int) + 32 < 2932897
   \<and> 0 \<le> bucket (card_kpi\<lparr>bucket := 0\<rparr>) \<and> bucket (card_kpi\<lparr>bucket := 0\<rparr>) \<le> 5
   \<and> (\<exists>t' n d'. scheduleNext zone_new_york ''2024-03-05'' ''2024-03-05T09:30:00.000Z''
                (card_kpi\<lparr>bucket := 0\<rparr>) Again = Inr t'
          \<and> js_index LEITNER_INTERVALS (bucket t') = Some n
          \<and> Date_parse (due t') = Some d' \<and> 19787 + n - 2 \<le> d' \<and> d' \<le> 19787 + n + 2)"
proof -
  have a: "(2::int) \<le> 19787" "(19787::int) + 32 < 2932897"
    "0 \<le> bucket (card_kpi\<lparr>bucket := 0\<rparr>)" "bucket (card_kpi\<lparr>bucket := 0\<rparr>) \<le> 5"
    by simp_all
  from scheduleNext_completes [OF zone_ok_new_york today_parse a,
      of "''2024-03-05T09:30:00.000Z''" Again]
  show ?thesis using today_parse zone_ok_new_york by simp
qed

section \<open>The queue\<close>

lemmas example_defs =
  example_state_def example_cards_def card_kpi_def card_bsc_def card_new_def card_tie_def
  card_later_def card_new2_def mount_def dueToday_def js_sort_def code_unit_compare_def

subsection \<open>Sorting with a comparator\<close>

lemma insert_by_insort_key:
  assumes "\<forall>y \<in> set ys. (cmp x y \<le> 0) = (f x \<le> f y)"
  shows "insert_by cmp x ys = insort_key f x ys"
  using assms by (induction ys) simp_all

lemma js_sort_sort_key:
  assumes "\<forall>x \<in> set xs. \<forall>y \<in> set xs. (cmp x y \<le> 0) = (f x \<le> f y)"
  shows "js_sort cmp xs = sort_key f xs"
  using assms
proof (induction xs)
  case Nil
  show ?case by (simp add: js_sort_def)
next
  case (Cons x xs)
  have "js_sort cmp xs = sort_key f xs" using Cons by simp
  then have "js_sort cmp (x # xs) = insert_by cmp x (sort_key f xs)"
    by (simp add: js_sort_def)
  also have "\<dots> = insort_key f x (sort_key f xs)"
    using Cons.prems by (intro insert_by_insort_key) simp
  finally show ?case by (simp add: sort_key_def)
qed

lemma collation_ok_code_unit: "collation_ok code_unit_compare"
  by (auto simp: collation_ok_def code_unit_compare_def)

text \<open>On a card set whose due dates are dates, the callback of \<open>dueToday\<close> gives the cards
  with bucket above 0 that are due on its day or earlier, sorted by due date, stable.\<close>

lemma dueToday_sort_key:
  assumes "collation_ok localeCompare" "list_all (\<lambda>t. is_date (due t)) cards"
  shows "dueToday localeCompare today cards
    = sort_key due (filter (\<lambda>t. 0 < bucket t \<and> due t \<le> today) cards)"
  unfolding dueToday_def
proof (rule js_sort_sort_key, intro ballI)
  fix x y
  assume "x \<in> set (filter (\<lambda>t. 0 < bucket t \<and> due t \<le> today) cards)"
    and "y \<in> set (filter (\<lambda>t. 0 < bucket t \<and> due t \<le> today) cards)"
  then have "is_date (due x)" "is_date (due y)"
    using assms(2) by (simp_all add: list_all_iff)
  then show "(localeCompare (due x) (due y) \<le> 0) = (due x \<le> due y)"
    using assms(1) by (simp add: collation_ok_def)
qed

lemma review_order_dueToday:
  assumes "collation_ok localeCompare" "list_all (\<lambda>t. is_date (due t)) cards"
  shows "review_order today cards (dueToday localeCompare today cards)"
  by (simp add: review_order_def dueToday_sort_key [OF assms] sort_key_stable)

lemma review_order_unique:
  assumes "review_order today cards full"
  shows "full = sort_key due (filter (\<lambda>t. 0 < bucket t \<and> due t \<le> today) cards)"
proof -
  let ?xs = "filter (\<lambda>t. 0 < bucket t \<and> due t \<le> today) cards"
  have "sort_key due ?xs = full"
  proof (rule properties_for_sort_key)
    show "mset full = mset ?xs" using assms by (simp add: review_order_def)
    show "sorted (map due full)" using assms by (simp add: review_order_def)
    fix k assume "k \<in> set full"
    have "filter (\<lambda>t. due t = due k) full = filter (\<lambda>t. due t = due k) ?xs"
      using assms by (simp add: review_order_def)
    then show "filter (\<lambda>x. due k = due x) full = filter (\<lambda>x. due k = due x) ?xs"
      by (simp add: eq_commute [of "due k"])
  qed
  then show ?thesis by simp
qed

subsection \<open>The memoised list\<close>

text \<open>The first render computes the list. A later render computes it again exactly when
  \<open>setAll\<close> has stored a new array since; otherwise it keeps the list of an earlier
  day.\<close>

lemma mount_computed_on: "computed_on localeCompare today (mount localeCompare today cards)"
  by (simp add: computed_on_def mount_def)

lemma render_keeps:
  assumes "computed_on localeCompare d st"
  shows "render localeCompare today st = st"
  using assms by (simp add: computed_on_def render_def useMemo_def)

lemma render_after_setAll:
  assumes "computed_on localeCompare d st"
  shows "computed_on localeCompare today (render localeCompare today (setAll v st))"
  using assms by (simp add: computed_on_def render_def useMemo_def setAll_def)

lemma computed_on_setMode:
  "computed_on localeCompare d (setMode m st) = computed_on localeCompare d st"
  by (simp add: computed_on_def setMode_def)

lemma computed_on_setShowBack:
  "computed_on localeCompare d (setShowBack b st) = computed_on localeCompare d st"
  by (simp add: computed_on_def setShowBack_def)

text \<open>
  The review queue when the list was computed on the day \<open>d\<close>: it is the list that the
  specification describes for the day \<open>d\<close>, cut after the first \<open>sessionSize\<close> cards. When
  \<open>d\<close> is today, that is the queue of the specification; when \<open>d\<close> is an earlier day, the
  queue still holds no card with bucket 0 and no card due after today, but it lacks the
  cards that have become due since.
\<close>

lemma review_queue_computed_on:
  assumes "mode st = Review" "computed_on localeCompare d st"
    and "collation_ok localeCompare" "list_all (\<lambda>t. is_date (due t)) (all st)"
  shows "queue st = take (sessionSize st) (dueToday localeCompare d (all st))"
    and "review_order d (all st) (dueToday localeCompare d (all st))"
    and "review_order d (all st) full \<Longrightarrow> full = dueToday localeCompare d (all st)"
    and "sorted (map due (queue st))"
    and "length (queue st) \<le> sessionSize st"
    and "t \<in> set (queue st) \<Longrightarrow> t \<in> set (all st) \<and> 0 < bucket t \<and> due t \<le> d"
    and "t \<in> set (queue st) \<Longrightarrow> d \<le> today \<Longrightarrow> bucket t \<noteq> 0 \<and> \<not> today < due t"
proof -
  let ?full = "dueToday localeCompare d (all st)"
  note sk = dueToday_sort_key [OF assms(3,4)]
  show q: "queue st = take (sessionSize st) ?full"
    using assms(1,2) by (simp add: queue_def computed_on_def)
  show "review_order d (all st) ?full" by (rule review_order_dueToday [OF assms(3,4)])
  show "review_order d (all st) full \<Longrightarrow> full = ?full"
    by (simp add: sk review_order_unique)
  have "sorted (map due ?full)" by (simp add: sk)
  then have "sorted (take (sessionSize st) (map due ?full))" by (rule sorted_wrt_take)
  then show "sorted (map due (queue st))" by (simp add: q take_map)
  show "length (queue st) \<le> sessionSize st" by (simp add: q)
  show m: "t \<in> set (queue st) \<Longrightarrow> t \<in> set (all st) \<and> 0 < bucket t \<and> due t \<le> d"
  proof -
    assume "t \<in> set (queue st)"
    then have "t \<in> set ?full" unfolding q by (rule in_set_takeD)
    then show ?thesis by (simp add: sk)
  qed
  show "t \<in> set (queue st) \<Longrightarrow> d \<le> today \<Longrightarrow> bucket t \<noteq> 0 \<and> \<not> today < due t"
    using m by fastforce
qed

text \<open>The same in days: the queue is non-decreasing by the day of the due date, and no
  card of it is due after the day on which the list was computed.\<close>

lemma sorted_due_day:
  assumes "list_all (\<lambda>t. is_date (due t)) xs" "sorted (map due xs)"
  shows "sorted (map due_day xs)"
proof -
  have "sorted_wrt (\<lambda>x y. due_day x \<le> due_day y) xs"
  proof (rule sorted_wrt_mono_rel)
    show "sorted_wrt (\<lambda>x y. due x \<le> due y) xs" using assms(2) by (simp add: sorted_map)
    fix x y assume x: "x \<in> set xs" and y: "y \<in> set xs" and le: "due x \<le> due y"
    from x assms(1) obtain dx where dx: "Date_parse (due x) = Some dx"
      by (auto simp: list_all_iff is_date_def)
    from y assms(1) obtain dy where dy: "Date_parse (due y) = Some dy"
      by (auto simp: list_all_iff is_date_def)
    show "due_day x \<le> due_day y"
      using le Date_parse_le [OF dx dy] by (simp add: due_day_def dx dy)
  qed
  then show ?thesis by (simp add: sorted_map)
qed

lemma review_queue_days:
  assumes "mode st = Review" "computed_on localeCompare d st"
    and "collation_ok localeCompare" "list_all (\<lambda>t. is_date (due t)) (all st)"
    and "Date_parse d = Some dd"
  shows "sorted (map due_day (queue st))"
    and "t \<in> set (queue st) \<Longrightarrow> due_day t \<le> dd"
proof -
  have sub: "set (queue st) \<subseteq> set (all st)"
    using review_queue_computed_on(6) [OF assms(1-4)] by blast
  then have dates: "list_all (\<lambda>t. is_date (due t)) (queue st)"
    using assms(4) by (auto simp: list_all_iff)
  show "sorted (map due_day (queue st))"
    by (rule sorted_due_day [OF dates review_queue_computed_on(4) [OF assms(1-4)]])
  assume t: "t \<in> set (queue st)"
  then have le: "due t \<le> d" using review_queue_computed_on(6) [OF assms(1-4)] by blast
  from t dates obtain dt where dt: "Date_parse (due t) = Some dt"
    by (auto simp: list_all_iff is_date_def)
  show "due_day t \<le> dd"
    using le Date_parse_le [OF dt assms(5)] by (simp add: due_day_def dt)
qed

lemma example_state_unfold:
  "example_state =
     \<lparr>mode = Review, all = example_cards, showBack = False, sessionSize = 2, all_ref = 0,
      dueToday_cell = (0, [card_bsc, card_kpi, card_tie])\<rparr>"
  by (simp add: example_defs)

lemma example_learn_queue:
  "queue (setMode Learn example_state) = [card_new, card_new2]"
  by (simp add: queue_def newCards_def setMode_def example_defs)

subsection \<open>The claims about the queue\<close>

text \<open>
  C3. The queue of the review mode is cut from the list that \<open>useMemo\<close> keeps, and that
  list is computed again only when the card set changes, not when the day changes. On
  the example set, first rendered on 2024-03-05, the user reveals a card on 2024-03-09:
  the queue of that render is the one of 2024-03-05. The card \<open>card_later\<close>, with bucket 4
  and due on 2024-03-09, is not in it, although the list of the cards with bucket above
  0 and due date at most today, in the order of the specification, holds it in the
  fourth place and the session has room for twenty cards.
\<close>

theorem review_queue_stale:
  "queue (render code_unit_compare ''2024-03-09''
            (setShowBack True (mount code_unit_compare ''2024-03-05'' example_cards)))
     = [card_bsc, card_kpi, card_tie]
   \<and> mode (render code_unit_compare ''2024-03-09''
            (setShowBack True (mount code_unit_compare ''2024-03-05'' example_cards))) = Review
   \<and> sessionSize (render code_unit_compare ''2024-03-09''
            (setShowBack True (mount code_unit_compare ''2024-03-05'' example_cards))) = 20
   \<and> all (render code_unit_compare ''2024-03-09''
            (setShowBack True (mount code_unit_compare ''2024-03-05'' example_cards)))
       = example_cards
   \<and> filter (\<lambda>t. 0 < bucket t \<and> due t \<le> ''2024-03-09'') example_cards
       = [card_kpi, card_later, card_tie, card_bsc]
   \<and> sort_key due (filter (\<lambda>t. 0 < bucket t \<and> due t \<le> ''2024-03-09'') example_cards)
       = [card_bsc, card_kpi, card_tie, card_later]
   \<and> bucket card_later = 4 \<and> due card_later = ''2024-03-09''"
  by (simp add: queue_def render_def useMemo_def setShowBack_def example_defs)

text \<open>
  C4. For every card set and every limit, the queue of the learn mode is the list of
  the cards with bucket 0, in the order of the card set, cut after the first \<open>limit\<close>
  elements. It never holds a card with bucket above 0, and it is never longer than the
  limit.
\<close>

theorem learn_queue:
  assumes "mode st = Learn"
  shows "queue st = take (sessionSize st) (filter (\<lambda>t. bucket t = 0) (all st))
    \<and> subseq (queue st) (all st)
    \<and> length (queue st) \<le> sessionSize st
    \<and> (\<forall>t \<in> set (queue st). t \<in> set (all st) \<and> bucket t = 0 \<and> \<not> 0 < bucket t)"
proof -
  let ?new = "filter (\<lambda>t. bucket t = 0) (all st)"
  have q: "queue st = take (sessionSize st) ?new"
    using assms by (simp add: queue_def newCards_def)
  have "subseq (take (sessionSize st) ?new) ?new"
    by (rule prefix_imp_subseq [OF take_is_prefix])
  moreover have "subseq ?new (all st)" by (rule subseq_filter_left)
  ultimately have o: "subseq (queue st) (all st)"
    unfolding q by (rule subseq_order.trans)
  have m: "\<forall>t \<in> set (queue st). t \<in> set (all st) \<and> bucket t = 0 \<and> \<not> 0 < bucket t"
  proof
    fix t assume "t \<in> set (queue st)"
    then have "t \<in> set ?new" unfolding q by (rule in_set_takeD)
    then show "t \<in> set (all st) \<and> bucket t = 0 \<and> \<not> 0 < bucket t" by simp
  qed
  have l: "length (queue st) \<le> sessionSize st" by (simp add: q)
  show ?thesis by (intro conjI) (fact q, fact o, fact l, fact m)
qed

theorem learn_queue_witness:
  "mode (setMode Learn example_state) = Learn
   \<and> queue (setMode Learn example_state) = [card_new, card_new2]
   \<and> subseq [card_new, card_new2] (all (setMode Learn example_state))
   \<and> length (queue (setMode Learn example_state))
       \<le> sessionSize (setMode Learn example_state)"
proof -
  have m: "mode (setMode Learn example_state) = Learn" by (simp add: setMode_def)
  from learn_queue [OF m]
  have "subseq (queue (setMode Learn example_state))
          (all (setMode Learn example_state))"
    and "length (queue (setMode Learn example_state))
          \<le> sessionSize (setMode Learn example_state)"
    by blast+
  then show ?thesis using m by (simp add: example_learn_queue)
qed

section \<open>The operations on the card set\<close>

lemma map_throw_preserves:
  assumes "map_throw f xs = Inr ys" "list_all P xs"
    and "\<And>x y. P x \<Longrightarrow> f x = Inr y \<Longrightarrow> P y"
  shows "list_all P ys"
  using assms(1,2)
proof (induction xs arbitrary: ys)
  case Nil
  then show ?case by simp
next
  case (Cons x xs)
  from Cons.prems(1) obtain y ys' where
    y: "f x = Inr y" and ys': "map_throw f xs = Inr ys'" and ys: "ys = y # ys'"
    by (auto split: sum.splits)
  have "P y" using assms(3) [OF _ y] Cons.prems(2) by simp
  moreover have "list_all P ys'" using Cons.IH [OF ys'] Cons.prems(2) by simp
  ultimately show ?case by (simp add: ys)
qed

lemma map_throw_total:
  assumes "\<And>x. x \<in> set xs \<Longrightarrow> \<exists>y. f x = Inr y"
  shows "\<exists>ys. map_throw f xs = Inr ys"
  using assms
proof (induction xs)
  case Nil
  show ?case by simp
next
  case (Cons x xs)
  obtain y where "f x = Inr y" using Cons.prems [of x] by auto
  moreover obtain ys where "map_throw f xs = Inr ys" using Cons by auto
  ultimately show ?case by simp
qed

lemma scheduleNext_inv:
  assumes "scheduleNext tza today now t r = Inr t'"
  shows "card_inv t'"
proof -
  let ?b = "transition_table r (bucket t)"
  have "js_index LEITNER_INTERVALS ?b \<noteq> None"
  proof
    assume "js_index LEITNER_INTERVALS ?b = None"
    then have "scheduleNext tza today now t r = Inl RangeError"
      by (simp add: scheduleNext_unfold addDays_undefined)
    then show False using assms by simp
  qed
  then have "?b < 6" by (auto simp: js_index_def LEITNER_INTERVALS_def split: if_splits)
  moreover have "1 \<le> ?b" by (rule transition_table_ge)
  ultimately have "?b \<in> {1, 2, 3, 4, 5}" by auto
  moreover have "bucket t' = ?b" "history t' = history t @ [(now, r)]"
    using assms by (auto simp: scheduleNext_unfold split: sum.splits)
  ultimately show ?thesis by (auto simp: card_inv_def)
qed

lemma parse_row_fresh:
  "bucket (parse_row ident today r) = 0" "due (parse_row ident today r) = today"
  "history (parse_row ident today r) = []" "card_inv (parse_row ident today r)"
  by (simp_all add: parse_row_def card_inv_def Let_def)

lemma rate_inv:
  assumes "list_all card_inv (all st)" "rate tza today now rating st = Inr st'"
  shows "list_all card_inv (all st')"
proof (cases "current st")
  case None
  then show ?thesis using assms by (simp add: rate_def)
next
  case (Some cur)
  let ?f = "\<lambda>t. if card_id t = card_id cur
       then scheduleNext tza today now (t\<lparr>bucket := (if bucket t = 0 then 1 else bucket t)\<rparr>) rating
       else Inr t"
  from assms(2) Some obtain nxt where
    nxt: "map_throw ?f (all st) = Inr nxt" and st': "st' = setShowBack False (setAll nxt st)"
    by (auto simp: rate_def split: sum.splits)
  have "list_all card_inv nxt"
  proof (rule map_throw_preserves [OF nxt assms(1)])
    fix x y assume "card_inv x" "?f x = Inr y"
    then show "card_inv y" by (auto split: if_splits dest: scheduleNext_inv)
  qed
  then show ?thesis by (simp add: st' setShowBack_def setAll_def)
qed

lemma rate_total:
  assumes "list_all card_inv (all st)" "zone_ok tza" "Date_parse today = Some d"
  shows "\<exists>st'. rate tza today now rating st = Inr st'"
proof (cases "current st")
  case None
  then show ?thesis by (simp add: rate_def)
next
  case (Some cur)
  let ?f = "\<lambda>t. if card_id t = card_id cur
       then scheduleNext tza today now (t\<lparr>bucket := (if bucket t = 0 then 1 else bucket t)\<rparr>) rating
       else Inr t"
  have "\<exists>nxt. map_throw ?f (all st) = Inr nxt"
  proof (rule map_throw_total)
    fix x assume "x \<in> set (all st)"
    then have "card_inv x" using assms(1) by (simp add: list_all_iff)
    then have "0 \<le> bucket (x\<lparr>bucket := (if bucket x = 0 then 1 else bucket x)\<rparr>)"
      "bucket (x\<lparr>bucket := (if bucket x = 0 then 1 else bucket x)\<rparr>) \<le> 5"
      by (auto simp: card_inv_def)
    from scheduleNext_returns [OF assms(2,3) this, of now rating]
    show "\<exists>y. ?f x = Inr y" by simp
  qed
  then show ?thesis using Some by (auto simp: rate_def)
qed


lemma trim_Nil_iff: "trim l = [] \<longleftrightarrow> blank l"
proof
  assume "trim l = []"
  then have e: "\<forall>x \<in> set (rev (dropWhile is_space l)). is_space x"
    by (simp add: trim_def)
  have "dropWhile is_space l = []"
  proof (rule ccontr)
    assume ne: "dropWhile is_space l \<noteq> []"
    then have "\<not> is_space (hd (dropWhile is_space l))" by (rule hd_dropWhile)
    moreover have "hd (dropWhile is_space l) \<in> set (rev (dropWhile is_space l))"
      using ne by simp
    ultimately show False using e by blast
  qed
  then show "blank l" by (simp add: blank_def list_all_iff)
next
  assume "blank l"
  then have "dropWhile is_space l = []" by (simp add: blank_def list_all_iff)
  then show "trim l = []" unfolding trim_def by (simp del: dropWhile_eq_Nil_conv)
qed

lemma enumerate_Nil_iff: "enumerate n xs = [] \<longleftrightarrow> xs = []"
  by (cases xs) simp_all

lemma importCSV_rows:
  "importCSV uid today csv st =
     (let rows = filter (\<lambda>r. r \<noteq> []) (map trim (split_lines csv))
      in if rows = [] then st
         else setMode Learn
                (setAll (map (\<lambda>(i, r). parse_row (uid i) today r) (enumerate 0 rows)) st))"
  by (simp add: importCSV_def Let_def enumerate_Nil_iff)

lemma importCSV_fresh:
  "all (importCSV uid today csv st) = all st
   \<or> list_all (\<lambda>c. bucket c = 0 \<and> due c = today \<and> history c = [])
        (all (importCSV uid today csv st))"
  by (auto simp: importCSV_rows Let_def list_all_iff parse_row_fresh setMode_def setAll_def)

lemma importCSV_inv:
  assumes "list_all card_inv (all st)"
  shows "list_all card_inv (all (importCSV uid today csv st))"
  using assms
  by (auto simp: importCSV_rows Let_def list_all_iff parse_row_fresh setMode_def setAll_def)

lemma nonblank_lines_rows:
  "filter (\<lambda>r. r \<noteq> []) (map trim (split_lines txt)) = nonblank_lines txt"
  by (simp add: nonblank_lines_def filter_map o_def trim_Nil_iff)

lemma split_lines_LF: "split_lines (CHR 0x0A # rest) = [] # split_lines rest"
  by (cases rest) simp_all

lemma is_space_bracket: "\<not> is_space CHR ''[''" "\<not> is_space CHR '']''"
  by (simp_all add: is_space_def)

lemma exportJSON_Nil: "exportJSON [] = ''[]''"
  by (simp add: exportJSON_def ser_array_def)

lemma exportJSON_Cons: "\<exists>rest. exportJSON (c # cs) = CHR ''['' # CHR 0x0A # rest"
  by (simp add: exportJSON_def ser_array_def indent_def)

lemma rows_of_export:
  "\<exists>rows. filter (\<lambda>r. r \<noteq> []) (map trim (split_lines (exportJSON cards)))
      = (if cards = [] then ''[]'' else ''['') # rows"
proof (cases cards)
  case Nil
  then show ?thesis by (simp add: exportJSON_Nil trim_def is_space_bracket)
next
  case (Cons c cs)
  obtain rest where "exportJSON (c # cs) = CHR ''['' # CHR 0x0A # rest"
    using exportJSON_Cons by blast
  then show ?thesis
    using Cons by (simp add: split_lines_LF trim_def is_space_bracket)
qed

lemma example_state_inv: "list_all card_inv (all example_state)"
  by (simp add: example_defs card_inv_def)

subsection \<open>The claims about the operations\<close>

text \<open>
  C6. Every operation that changes the card set keeps the invariant of the data model
  (the bucket is one of 0..5, and it is 0 exactly when the history is empty) on every
  card: rating through \<open>rate\<close>, which replaces the bucket 0 by 1 before it calls the
  scheduler, adding a card, importing, resetting and deleting. Under the invariant, with
  \<open>today\<close> a date of the form YYYY-MM-DD and the offsets of the time zone within a
  day, \<open>rate\<close> returns a state.
\<close>

theorem operations_keep_card_inv:
  assumes "list_all card_inv (all st)"
  shows "(\<forall>st'. rate tza today now rating st = Inr st' \<longrightarrow> list_all card_inv (all st'))
    \<and> (\<forall>d. zone_ok tza \<longrightarrow> Date_parse today = Some d \<longrightarrow>
          (\<exists>st'. rate tza today now rating st = Inr st'))
    \<and> list_all card_inv (all (addOne ident today term_p definition_p tags_p st))
    \<and> list_all card_inv (all (importCSV uid today csv st))
    \<and> list_all card_inv (all (resetProgress today confirmed st))
    \<and> list_all card_inv (all (deleteCard ident st))"
proof (intro conjI allI impI)
  fix st' assume "rate tza today now rating st = Inr st'"
  then show "list_all card_inv (all st')" by (rule rate_inv [OF assms])
next
  fix d assume "zone_ok tza" "Date_parse today = Some d"
  then show "\<exists>st'. rate tza today now rating st = Inr st'" by (rule rate_total [OF assms])
next
  show "list_all card_inv (all (addOne ident today term_p definition_p tags_p st))"
    using assms by (simp add: addOne_def setAll_def card_inv_def Let_def split: option.splits)
next
  show "list_all card_inv (all (importCSV uid today csv st))"
    by (rule importCSV_inv [OF assms])
next
  show "list_all card_inv (all (resetProgress today confirmed st))"
    using assms
    by (auto simp: resetProgress_def setMode_def setAll_def card_inv_def list_all_iff)
next
  show "list_all card_inv (all (deleteCard ident st))"
    using assms by (simp add: deleteCard_def setAll_def list_all_iff)
qed

theorem operations_keep_card_inv_witness:
  "list_all card_inv (all example_state)
   \<and> zone_ok zone_new_york \<and> Date_parse ''2024-03-05'' = Some 19787
   \<and> (\<exists>st'. rate zone_new_york ''2024-03-05'' ''2024-03-05T09:30:00.000Z'' Good example_state
              = Inr st'
          \<and> list_all card_inv (all st'))
   \<and> list_all card_inv
        (all (importCSV example_uid ''2024-03-05'' ''KPI;Key indicator;a,b'' example_state))"
proof -
  note w = operations_keep_card_inv [OF example_state_inv,
      of zone_new_york "''2024-03-05''" "''2024-03-05T09:30:00.000Z''" Good _ _ _ _ example_uid
         "''KPI;Key indicator;a,b''"]
  note returns = w [THEN conjunct2, THEN conjunct1, rule_format, OF zone_ok_new_york today_parse]
  note keeps = w [THEN conjunct1, rule_format]
  note imported = w [THEN conjunct2, THEN conjunct2, THEN conjunct2, THEN conjunct1]
  from returns obtain st' where
    st': "rate zone_new_york ''2024-03-05'' ''2024-03-05T09:30:00.000Z'' Good example_state
            = Inr st'"
    by blast
  have "list_all card_inv (all st')" by (rule keeps [OF st'])
  then show ?thesis
    using st' imported example_state_inv today_parse zone_ok_new_york by blast
qed

text \<open>
  C10. For every card set and every import text whose lines are all empty or hold
  white space only, \<open>importCSV\<close> leaves the state as it is: the card set is not replaced
  (by an empty set, by a default set or by anything else).
\<close>

theorem importCSV_blank_text:
  assumes "\<forall>l \<in> set (split_lines csv). blank l"
  shows "importCSV uid today csv st = st"
proof -
  have "filter (\<lambda>r. r \<noteq> []) (map trim (split_lines csv)) = []"
    using assms by (simp add: filter_empty_conv trim_Nil_iff)
  then show ?thesis by (simp add: importCSV_rows)
qed

theorem importCSV_blank_text_witness:
  "list_all blank (split_lines [CHR '' '', CHR 0x0D, CHR 0x0A, CHR 0x09, CHR 0x0A])
   \<and> split_lines [CHR '' '', CHR 0x0D, CHR 0x0A, CHR 0x09, CHR 0x0A] = ['' '', [CHR 0x09], []]
   \<and> importCSV example_uid ''2024-03-05'' [CHR '' '', CHR 0x0D, CHR 0x0A, CHR 0x09, CHR 0x0A]
        example_state = example_state"
proof -
  have b: "\<forall>l \<in> set (split_lines [CHR '' '', CHR 0x0D, CHR 0x0A, CHR 0x09, CHR 0x0A]). blank l"
    by (simp add: blank_def is_space_def)
  from importCSV_blank_text [OF b, of example_uid "''2024-03-05''" example_state] b
  show ?thesis by (simp add: list_all_iff)
qed

text \<open>
  C7, as the specification states it: exporting the collection and importing the
  exported data gives a set whose cards have the term, definition, tags, bucket, due
  date and history of the original cards. This fails for the set of the single card
  \<open>card_kpi\<close>: the import reads the 18 lines of the JSON text as 18 rows; the first
  card has the term \<open>[\<close>, no imported card agrees with the original card on the six
  fields, and the original card agrees with no imported card.
\<close>

theorem export_import_single_card:
  "all single_state = [card_kpi]
   \<and> length (all (importCSV example_uid ''2024-03-05'' (exportJSON (all single_state))
                 single_state)) = 18
   \<and> hd (all (importCSV example_uid ''2024-03-05'' (exportJSON (all single_state))
             single_state))
       = \<lparr>card_id = ''id0'', card_term = ''['', card_definition = [], tags = Some [],
          source = None, bucket = 0, due = ''2024-03-05'', history = []\<rparr>
   \<and> \<not> list_ex (\<lambda>c'. list_ex (same_fields c') (all single_state))
         (all (importCSV example_uid ''2024-03-05'' (exportJSON (all single_state))
                single_state))
   \<and> \<not> list_ex (\<lambda>c. list_ex (same_fields c)
                    (all (importCSV example_uid ''2024-03-05'' (exportJSON (all single_state))
                           single_state)))
         (all single_state)"
  by code_simp

text \<open>
  C7, amended: for every card set, exporting the collection and importing the exported
  text replaces the set by new cards, one for each line of the JSON text that is not
  blank, in the order of the lines: the card of a line is made from that line alone
  (its white space at the ends removed, split at \<open>;\<close> or tab into term, definition and
  tags), with a new identifier, bucket 0, the due date today and an empty history. The
  mode becomes the learn mode. The new set is not empty: the first line, and so the term
  of the first card, is \<open>[\<close> (\<open>[]\<close> for the empty set). A new card has the term,
  definition, tags, bucket, due date and history of an original card only if that card
  has bucket 0, is due today and has an empty history.
\<close>

theorem export_import_resets:
  "importCSV uid today (exportJSON (all st)) st
     = setMode Learn
         (setAll (map (\<lambda>(i, l). parse_row (uid i) today l)
                    (enumerate 0 (nonblank_lines (exportJSON (all st))))) st)
   \<and> nonblank_lines (exportJSON (all st)) \<noteq> []
   \<and> hd (nonblank_lines (exportJSON (all st))) = (if all st = [] then ''[]'' else ''['')
   \<and> length (all (importCSV uid today (exportJSON (all st)) st))
       = length (nonblank_lines (exportJSON (all st)))
   \<and> mode (importCSV uid today (exportJSON (all st)) st) = Learn
   \<and> list_all (\<lambda>c. bucket c = 0 \<and> due c = today \<and> history c = [])
        (all (importCSV uid today (exportJSON (all st)) st))
   \<and> card_id (hd (all (importCSV uid today (exportJSON (all st)) st))) = uid 0
   \<and> card_term (hd (all (importCSV uid today (exportJSON (all st)) st)))
       = (if all st = [] then ''[]'' else ''['')
   \<and> (\<forall>c \<in> set (all st). \<forall>c' \<in> set (all (importCSV uid today (exportJSON (all st)) st)).
         same_fields c' c \<longrightarrow> bucket c = 0 \<and> due c = today \<and> history c = [])"
proof -
  let ?first = "if all st = [] then ''[]'' else ''[''"
  let ?lines = "nonblank_lines (exportJSON (all st))"
  let ?new = "map (\<lambda>(i, l). parse_row (uid i) today l) (enumerate 0 ?lines)"
  obtain rows where rows: "?lines = ?first # rows"
    using rows_of_export [of "all st"] by (auto simp: nonblank_lines_rows)
  have eq: "importCSV uid today (exportJSON (all st)) st = setMode Learn (setAll ?new st)"
    unfolding importCSV_rows nonblank_lines_rows Let_def by (simp add: rows)
  have a: "all (importCSV uid today (exportJSON (all st)) st) = ?new"
    by (simp add: eq setMode_def setAll_def)
  have m: "mode (importCSV uid today (exportJSON (all st)) st) = Learn"
    by (simp add: eq setMode_def setAll_def)
  have ne: "?lines \<noteq> []" by (simp add: rows)
  have h: "hd ?lines = ?first" by (simp add: rows)
  have len: "length (all (importCSV uid today (exportJSON (all st)) st)) = length ?lines"
    by (simp add: a)
  have fresh: "list_all (\<lambda>c. bucket c = 0 \<and> due c = today \<and> history c = [])
      (all (importCSV uid today (exportJSON (all st)) st))"
    unfolding a by (auto simp: list_all_iff parse_row_fresh)
  have hd_new: "hd ?new = parse_row (uid 0) today ?first" by (simp add: rows)
  have i: "card_id (hd (all (importCSV uid today (exportJSON (all st)) st))) = uid 0"
    unfolding a hd_new by (simp add: parse_row_def Let_def)
  have t: "card_term (hd (all (importCSV uid today (exportJSON (all st)) st))) = ?first"
    unfolding a hd_new by (simp add: parse_row_def js_index_def trim_def is_space_bracket)
  have s: "\<forall>c \<in> set (all st). \<forall>c' \<in> set (all (importCSV uid today (exportJSON (all st)) st)).
      same_fields c' c \<longrightarrow> bucket c = 0 \<and> due c = today \<and> history c = []"
    using fresh by (auto simp: list_all_iff same_fields_def)
  show ?thesis by (intro conjI) (fact eq, fact ne, fact h, fact len, fact m, fact fresh, fact i, fact t, fact s)
qed

theorem export_import_resets_witness:
  "all single_state = [card_kpi]
   \<and> length (nonblank_lines (exportJSON (all single_state))) = 18
   \<and> length (all (importCSV example_uid ''2024-03-05'' (exportJSON (all single_state))
                 single_state)) = 18
   \<and> \<not> list_ex (\<lambda>c'. same_fields c' card_kpi)
         (all (importCSV example_uid ''2024-03-05'' (exportJSON (all single_state))
                single_state))"
proof -
  note w = export_import_resets [of example_uid "''2024-03-05''" single_state]
  have k: "all single_state = [card_kpi]" by (simp add: single_state_def setMode_def mount_def)
  have n: "length (nonblank_lines (exportJSON (all single_state))) = 18"
    unfolding k by code_simp
  note len = w [THEN conjunct2, THEN conjunct2, THEN conjunct2, THEN conjunct1]
  note s = w [THEN conjunct2, THEN conjunct2, THEN conjunct2, THEN conjunct2, THEN conjunct2,
      THEN conjunct2, THEN conjunct2, THEN conjunct2, rule_format, of card_kpi]
  have "\<not> same_fields c' card_kpi"
    if "c' \<in> set (all (importCSV example_uid ''2024-03-05'' (exportJSON (all single_state))
                single_state))" for c'
  proof
    assume "same_fields c' card_kpi"
    from s [OF _ that this] have "bucket card_kpi = 0" by (simp add: k)
    then show False by (simp add: card_kpi_def)
  qed
  then have "\<not> list_ex (\<lambda>c'. same_fields c' card_kpi)
         (all (importCSV example_uid ''2024-03-05'' (exportJSON (all single_state))
                single_state))"
    by (auto simp: list_ex_iff)
  then show ?thesis using k n len by simp
qed

section \<open>The JSON parser\<close>

text \<open>The parser uses up its input, and the fuel that \<open>JSON_parse\<close> gives it is never
  used up.\<close>

lemma parse_value_arr:
  "parse_value (Suc n) (CHR ''['' # rest) =
     (case skip_ws rest of
        [] \<Rightarrow> Reject
      | c' # rest' \<Rightarrow>
          if c' = CHR '']'' then Accept (JArr [], rest')
          else (case parse_elements n (c' # rest') of
                  NoFuel \<Rightarrow> NoFuel
                | Reject \<Rightarrow> Reject
                | Accept (vs, r) \<Rightarrow> Accept (JArr vs, r)))"
  by simp

lemma parse_value_obj:
  "parse_value (Suc n) (CHR ''{'' # rest) =
     (case skip_ws rest of
        [] \<Rightarrow> Reject
      | c' # rest' \<Rightarrow>
          if c' = CHR ''}'' then Accept (JObj [], rest')
          else (case parse_members n (c' # rest') of
                  NoFuel \<Rightarrow> NoFuel
                | Reject \<Rightarrow> Reject
                | Accept (kvs, r) \<Rightarrow> Accept (JObj kvs, r)))"
  by simp

lemma parse_value_str:
  "parse_value (Suc n) (CHR 0x22 # rest) =
     (case parse_chars rest of None \<Rightarrow> Reject | Some (s, r) \<Rightarrow> Accept (JStr s, r))"
  by simp

lemma parse_value_other:
  assumes "c \<noteq> CHR ''[''" "c \<noteq> CHR ''{''" "c \<noteq> CHR 0x22"
  shows "parse_value (Suc n) (c # rest) =
     (if take 4 (c # rest) = ''true'' then Accept (JBool True, drop 4 (c # rest))
      else if take 5 (c # rest) = ''false'' then Accept (JBool False, drop 5 (c # rest))
      else if take 4 (c # rest) = ''null'' then Accept (JNull, drop 4 (c # rest))
      else (case parse_number (c # rest) of None \<Rightarrow> Reject | Some (v, r) \<Rightarrow> Accept (v, r)))"
  using assms by (simp del: take_Suc_Cons drop_Suc_Cons take_Cons_numeral drop_Cons_numeral)


lemma length_skip_ws: "length (skip_ws cs) \<le> length cs"
  by (simp add: skip_ws_def length_dropWhile_le)

lemma skip_ws_Cons: "skip_ws r = c # r' \<Longrightarrow> length r' < length r"
  using length_skip_ws [of r] by simp

lemma drop_literal: "take k cs = l \<Longrightarrow> l \<noteq> [] \<Longrightarrow> length (drop k cs) < length cs"
  by (cases k; cases cs) auto

lemma parse_chars_consumes: "parse_chars cs = Some (s, r) \<Longrightarrow> length r < length cs"
proof (induction cs arbitrary: s r rule: parse_chars.induct)
  case 1
  then show ?case by simp
next
  case (2 c cs)
  show ?case
  proof (cases "c = CHR 0x22")
    case True
    then show ?thesis using "2.prems" by simp
  next
    case nq: False
    show ?thesis
    proof (cases "c = CHR 0x5C")
      case True
      then obtain e cs' where cs: "cs = e # cs'" using "2.prems" by (cases cs) auto
      show ?thesis
      proof (cases "e = CHR ''u''")
        case u: True
        from "2.prems" True cs u obtain x us where
          x: "parse_hex4 cs' = Some x" and p: "parse_chars (drop 4 cs') = Some (us, r)"
          by (auto split: option.splits)
        have "length r < length (drop 4 cs')"
          by (rule "2.IH"(1) [OF nq True cs u x p])
        then show ?thesis using cs by simp
      next
        case nu: False
        from "2.prems" True cs nu obtain x us where
          x: "escape_unit e = Some x" and p: "parse_chars cs' = Some (us, r)"
          by (auto split: option.splits)
        have "length r < length cs'"
          by (rule "2.IH"(2) [OF nq True cs nu x p])
        then show ?thesis using cs by simp
      qed
    next
      case nb: False
      from "2.prems" nq nb obtain us where
        lo: "\<not> (of_char c :: nat) < 0x20" and p: "parse_chars cs = Some (us, r)"
        by (auto split: option.splits if_splits)
      have "length r < length cs" by (rule "2.IH"(3) [OF nq nb lo p])
      then show ?thesis by simp
    qed
  qed
qed

lemma parse_number_consumes:
  assumes "parse_number cs = Some (v, r)"
  shows "length r < length cs"
proof -
  define neg where "neg = (cs \<noteq> [] \<and> hd cs = CHR ''-'')"
  define cs1 where "cs1 = (if neg then tl cs else cs)"
  define ip where "ip = takeWhile is_digit cs1"
  define cs2 where "cs2 = dropWhile is_digit cs1"
  define has_frac where "has_frac = (cs2 \<noteq> [] \<and> hd cs2 = CHR ''.'')"
  define fp where "fp = (if has_frac then takeWhile is_digit (tl cs2) else [])"
  define cs3 where "cs3 = (if has_frac then dropWhile is_digit (tl cs2) else cs2)"
  define has_exp where "has_exp = (cs3 \<noteq> [] \<and> (hd cs3 = CHR ''e'' \<or> hd cs3 = CHR ''E''))"
  define cs4 where "cs4 = (if has_exp then tl cs3 else cs3)"
  define eneg where "eneg = (has_exp \<and> cs4 \<noteq> [] \<and> hd cs4 = CHR ''-'')"
  define cs5 where
    "cs5 = (if has_exp \<and> cs4 \<noteq> [] \<and> (hd cs4 = CHR ''-'' \<or> hd cs4 = CHR ''+'')
            then tl cs4 else cs4)"
  define ed where "ed = (if has_exp then takeWhile is_digit cs5 else [])"
  define cs6 where "cs6 = (if has_exp then dropWhile is_digit cs5 else cs3)"
  define ex where "ex = (if eneg then - int (digits_val ed) else int (digits_val ed))"
  have eq: "parse_number cs =
      (if ip = [] \<or> (1 < length ip \<and> hd ip = CHR ''0'') then None
       else if has_frac \<and> fp = [] then None
       else if has_exp \<and> ed = [] then None
       else Some (JNum neg (digits_val (ip @ fp)) (ex - int (length fp)), cs6))"
    unfolding parse_number_def Let_def neg_def cs1_def ip_def cs2_def has_frac_def fp_def
      cs3_def has_exp_def cs4_def eneg_def cs5_def ed_def cs6_def ex_def
    by (rule refl)
  have ip: "ip \<noteq> []" and r: "r = cs6"
    using assms unfolding eq by (simp_all split: if_splits)
  have "length cs1 = length ip + length cs2"
    unfolding ip_def cs2_def by (metis length_append takeWhile_dropWhile_id)
  then have a: "length cs2 < length cs1" using ip by simp
  have b: "length cs1 \<le> length cs" by (simp add: cs1_def)
  have c: "length cs3 \<le> length cs2"
    unfolding cs3_def using length_dropWhile_le [of is_digit "tl cs2"] by auto
  have d: "length cs4 \<le> length cs3" by (simp add: cs4_def)
  have e: "length cs5 \<le> length cs4" by (simp add: cs5_def)
  have f: "length cs6 \<le> length cs3"
    unfolding cs6_def using length_dropWhile_le [of is_digit cs5] d e by auto
  show ?thesis unfolding r using a b c f by linarith
qed

lemma parse_value_consumes_step:
  assumes IHe: "\<And>cs vs r. parse_elements n cs = Accept (vs, r) \<Longrightarrow> length r < length cs"
    and IHm: "\<And>cs kvs r. parse_members n cs = Accept (kvs, r) \<Longrightarrow> length r < length cs"
    and p: "parse_value (Suc n) cs = Accept (v, r)"
  shows "length r < length cs"
proof (cases cs)
  case Nil
  then show ?thesis using p by simp
next
  case (Cons c rest)
  consider (arr) "c = CHR ''[''" | (obj) "c = CHR ''{''" | (str) "c = CHR 0x22"
    | (other) "c \<noteq> CHR ''[''" "c \<noteq> CHR ''{''" "c \<noteq> CHR 0x22"
    by blast
  then show ?thesis
  proof cases
    case arr
    note q = p [unfolded Cons arr parse_value_arr]
    show ?thesis
    proof (cases "skip_ws rest")
      case Nil
      then show ?thesis using q by simp
    next
      case sk: (Cons c' rest')
      have l: "length (c' # rest') \<le> length rest" using length_skip_ws [of rest] sk by simp
      show ?thesis
      proof (cases "c' = CHR '']''")
        case True
        then have "r = rest'" using q sk by simp
        then show ?thesis using l Cons by simp
      next
        case False
        then obtain vs where "parse_elements n (c' # rest') = Accept (vs, r)"
          using q sk by (simp split: presult.splits prod.splits)
        from IHe [OF this] show ?thesis using l Cons by simp
      qed
    qed
  next
    case obj
    note q = p [unfolded Cons obj parse_value_obj]
    show ?thesis
    proof (cases "skip_ws rest")
      case Nil
      then show ?thesis using q by simp
    next
      case sk: (Cons c' rest')
      have l: "length (c' # rest') \<le> length rest" using length_skip_ws [of rest] sk by simp
      show ?thesis
      proof (cases "c' = CHR ''}''")
        case True
        then have "r = rest'" using q sk by simp
        then show ?thesis using l Cons by simp
      next
        case False
        then obtain kvs where "parse_members n (c' # rest') = Accept (kvs, r)"
          using q sk by (simp split: presult.splits prod.splits)
        from IHm [OF this] show ?thesis using l Cons by simp
      qed
    qed
  next
    case str
    note q = p [unfolded Cons str parse_value_str]
    then obtain s where "parse_chars rest = Some (s, r)"
      by (simp split: option.splits prod.splits)
    from parse_chars_consumes [OF this] show ?thesis using Cons by simp
  next
    case other
    note q = p [unfolded Cons parse_value_other [OF other], folded Cons]
    show ?thesis
    proof (cases "take 4 cs = ''true''")
      case True
      then have "r = drop 4 cs" using q by simp
      then show ?thesis using drop_literal [OF True] by simp
    next
      case nt: False
      show ?thesis
      proof (cases "take 5 cs = ''false''")
        case True
        then have "r = drop 5 cs" using q nt by simp
        then show ?thesis using drop_literal [OF True] by simp
      next
        case nf: False
        show ?thesis
        proof (cases "take 4 cs = ''null''")
          case True
          then have "r = drop 4 cs" using q nt nf by simp
          then show ?thesis using drop_literal [OF True] by simp
        next
          case False
          then have "parse_number cs = Some (v, r)"
            using q nt nf by (simp split: option.splits prod.splits)
          then show ?thesis by (rule parse_number_consumes)
        qed
      qed
    qed
  qed
qed


lemma parse_elements_consumes_step:
  assumes IHv: "\<And>cs v r. parse_value n cs = Accept (v, r) \<Longrightarrow> length r < length cs"
    and IHe: "\<And>cs vs r. parse_elements n cs = Accept (vs, r) \<Longrightarrow> length r < length cs"
    and p: "parse_elements (Suc n) cs = Accept (vs, r)"
  shows "length r < length cs"
proof (cases "parse_value n cs")
  case NoFuel
  then show ?thesis using p by simp
next
  case Reject
  then show ?thesis using p by simp
next
  case (Accept x)
  obtain v r1 where x: "x = (v, r1)" by (cases x)
  note v = Accept [unfolded x]
  have l1: "length r1 < length cs" by (rule IHv [OF v])
  show ?thesis
  proof (cases "skip_ws r1")
    case Nil
    then show ?thesis using p v by simp
  next
    case (Cons c r')
    have l2: "length r' < length r1" by (rule skip_ws_Cons [OF Cons])
    show ?thesis
    proof (cases "c = CHR '']''")
      case True
      then have "r = r'" using p v Cons by simp
      then show ?thesis using l1 l2 by simp
    next
      case nb: False
      show ?thesis
      proof (cases "c = CHR '',''")
        case False
        then show ?thesis using p v Cons nb by simp
      next
        case True
        show ?thesis
        proof (cases "parse_elements n (skip_ws r')")
          case NoFuel
          then show ?thesis using p v Cons nb True by simp
        next
          case Reject
          then show ?thesis using p v Cons nb True by simp
        next
          case (Accept y)
          obtain ws r2 where y: "y = (ws, r2)" by (cases y)
          have "r = r2" using p v Cons nb True Accept y by simp
          then have "length r < length (skip_ws r')" using IHe [OF Accept [unfolded y]] by simp
          then show ?thesis using length_skip_ws [of r'] l1 l2 by linarith
        qed
      qed
    qed
  qed
qed

lemma parse_members_consumes_step:
  assumes IHv: "\<And>cs v r. parse_value n cs = Accept (v, r) \<Longrightarrow> length r < length cs"
    and IHm: "\<And>cs kvs r. parse_members n cs = Accept (kvs, r) \<Longrightarrow> length r < length cs"
    and p: "parse_members (Suc n) cs = Accept (kvs, r)"
  shows "length r < length cs"
proof (cases cs)
  case Nil
  then show ?thesis using p by simp
next
  case (Cons q cs')
  have q: "q = CHR 0x22" using p Cons by (simp split: if_splits)
  note p1 = p [unfolded Cons q]
  show ?thesis
  proof (cases "parse_chars cs'")
    case None
    then show ?thesis using p1 by simp
  next
    case (Some x)
    obtain k r1 where x: "x = (k, r1)" by (cases x)
    note k = Some [unfolded x]
    have l1: "length r1 < length cs'" by (rule parse_chars_consumes [OF k])
    show ?thesis
    proof (cases "skip_ws r1")
      case Nil
      then show ?thesis using p1 k by simp
    next
      case sk1: (Cons c r2)
      have c: "c = CHR '':''" using p1 k sk1 by (simp split: if_splits)
      have l2: "length r2 < length r1" by (rule skip_ws_Cons [OF sk1])
      show ?thesis
      proof (cases "parse_value n (skip_ws r2)")
        case NoFuel
        then show ?thesis using p1 k sk1 c by simp
      next
        case Reject
        then show ?thesis using p1 k sk1 c by simp
      next
        case (Accept y)
        obtain v r3 where y: "y = (v, r3)" by (cases y)
        note v = Accept [unfolded y]
        have l3: "length r3 < length r2"
          using IHv [OF v] length_skip_ws [of r2] by linarith
        show ?thesis
        proof (cases "skip_ws r3")
          case Nil
          then show ?thesis using p1 k sk1 c v by simp
        next
          case sk2: (Cons c2 r4)
          have l4: "length r4 < length r3" by (rule skip_ws_Cons [OF sk2])
          show ?thesis
          proof (cases "c2 = CHR ''}''")
            case True
            then have "r = r4" using p1 k sk1 c v sk2 by simp
            then show ?thesis using l1 l2 l3 l4 Cons by simp
          next
            case nb: False
            show ?thesis
            proof (cases "c2 = CHR '',''")
              case False
              then show ?thesis using p1 k sk1 c v sk2 nb by simp
            next
              case True
              show ?thesis
              proof (cases "parse_members n (skip_ws r4)")
                case NoFuel
                then show ?thesis using p1 k sk1 c v sk2 nb True by simp
              next
                case Reject
                then show ?thesis using p1 k sk1 c v sk2 nb True by simp
              next
                case (Accept z)
                obtain ws r5 where z: "z = (ws, r5)" by (cases z)
                have "r = r5" using p1 k sk1 c v sk2 nb True Accept z by simp
                then have "length r < length (skip_ws r4)"
                  using IHm [OF Accept [unfolded z]] by simp
                then show ?thesis
                  using length_skip_ws [of r4] l1 l2 l3 l4 Cons by simp
              qed
            qed
          qed
        qed
      qed
    qed
  qed
qed

lemma parse_consumes:
  "(\<forall>cs v r. parse_value n cs = Accept (v, r) \<longrightarrow> length r < length cs)
   \<and> (\<forall>cs vs r. parse_elements n cs = Accept (vs, r) \<longrightarrow> length r < length cs)
   \<and> (\<forall>cs kvs r. parse_members n cs = Accept (kvs, r) \<longrightarrow> length r < length cs)"
proof (induction n)
  case 0
  show ?case by simp
next
  case (Suc n)
  have IHv: "\<And>cs v r. parse_value n cs = Accept (v, r) \<Longrightarrow> length r < length cs"
    and IHe: "\<And>cs vs r. parse_elements n cs = Accept (vs, r) \<Longrightarrow> length r < length cs"
    and IHm: "\<And>cs kvs r. parse_members n cs = Accept (kvs, r) \<Longrightarrow> length r < length cs"
    using Suc by blast+
  have v: "length r < length cs" if "parse_value (Suc n) cs = Accept (v, r)" for cs v r
    by (rule parse_value_consumes_step [where n = n]) (erule IHe, erule IHm, rule that)
  have e: "length r < length cs" if "parse_elements (Suc n) cs = Accept (vs, r)" for cs vs r
    by (rule parse_elements_consumes_step [where n = n]) (erule IHv, erule IHe, rule that)
  have m: "length r < length cs" if "parse_members (Suc n) cs = Accept (kvs, r)" for cs kvs r
    by (rule parse_members_consumes_step [where n = n]) (erule IHv, erule IHm, rule that)
  show ?case using v e m by blast
qed

lemma parse_value_consumes: "parse_value n cs = Accept (v, r) \<Longrightarrow> length r < length cs"
  using parse_consumes [of n] by blast


lemma parse_value_fuel_step:
  assumes IHe: "\<And>cs. 2 * length cs + 1 < n \<Longrightarrow> parse_elements n cs \<noteq> NoFuel"
    and IHm: "\<And>cs. 2 * length cs + 1 < n \<Longrightarrow> parse_members n cs \<noteq> NoFuel"
    and f: "2 * length cs < Suc n"
  shows "parse_value (Suc n) cs \<noteq> NoFuel"
proof (cases cs)
  case Nil
  then show ?thesis by simp
next
  case (Cons c rest)
  consider (arr) "c = CHR ''[''" | (obj) "c = CHR ''{''" | (str) "c = CHR 0x22"
    | (other) "c \<noteq> CHR ''[''" "c \<noteq> CHR ''{''" "c \<noteq> CHR 0x22"
    by blast
  then show ?thesis
  proof cases
    case arr
    show ?thesis
    proof (cases "skip_ws rest")
      case Nil
      then show ?thesis unfolding Cons arr parse_value_arr by simp
    next
      case sk: (Cons c' rest')
      have "length (c' # rest') \<le> length rest" using length_skip_ws [of rest] sk by simp
      then have "2 * length (c' # rest') + 1 < n" using f Cons by simp
      then have "parse_elements n (c' # rest') \<noteq> NoFuel" by (rule IHe)
      then show ?thesis
        unfolding Cons arr parse_value_arr sk by (simp split: presult.splits prod.splits)
    qed
  next
    case obj
    show ?thesis
    proof (cases "skip_ws rest")
      case Nil
      then show ?thesis unfolding Cons obj parse_value_obj by simp
    next
      case sk: (Cons c' rest')
      have "length (c' # rest') \<le> length rest" using length_skip_ws [of rest] sk by simp
      then have "2 * length (c' # rest') + 1 < n" using f Cons by simp
      then have "parse_members n (c' # rest') \<noteq> NoFuel" by (rule IHm)
      then show ?thesis
        unfolding Cons obj parse_value_obj sk by (simp split: presult.splits prod.splits)
    qed
  next
    case str
    show ?thesis
      unfolding Cons str parse_value_str by (simp split: option.splits prod.splits)
  next
    case other
    show ?thesis
      unfolding Cons parse_value_other [OF other] by (simp split: option.splits prod.splits)
  qed
qed

lemma parse_elements_fuel_step:
  assumes IHv: "\<And>cs. 2 * length cs < n \<Longrightarrow> parse_value n cs \<noteq> NoFuel"
    and IHe: "\<And>cs. 2 * length cs + 1 < n \<Longrightarrow> parse_elements n cs \<noteq> NoFuel"
    and f: "2 * length cs + 1 < Suc n"
  shows "parse_elements (Suc n) cs \<noteq> NoFuel"
proof (cases "parse_value n cs")
  case NoFuel
  moreover have "parse_value n cs \<noteq> NoFuel" using f by (intro IHv) simp
  ultimately show ?thesis by simp
next
  case Reject
  then show ?thesis by simp
next
  case (Accept x)
  obtain v r1 where x: "x = (v, r1)" by (cases x)
  note v = Accept [unfolded x]
  have l1: "length r1 < length cs" by (rule parse_value_consumes [OF v])
  show ?thesis
  proof (cases "skip_ws r1")
    case Nil
    then show ?thesis using v by simp
  next
    case (Cons c r')
    have l2: "length r' < length r1" by (rule skip_ws_Cons [OF Cons])
    have "2 * length (skip_ws r') + 1 < n" using length_skip_ws [of r'] l1 l2 f by linarith
    then have "parse_elements n (skip_ws r') \<noteq> NoFuel" by (rule IHe)
    then show ?thesis using v Cons by (simp split: presult.splits prod.splits)
  qed
qed

lemma parse_members_fuel_step:
  assumes IHv: "\<And>cs. 2 * length cs < n \<Longrightarrow> parse_value n cs \<noteq> NoFuel"
    and IHm: "\<And>cs. 2 * length cs + 1 < n \<Longrightarrow> parse_members n cs \<noteq> NoFuel"
    and f: "2 * length cs + 1 < Suc n"
  shows "parse_members (Suc n) cs \<noteq> NoFuel"
proof (cases cs)
  case Nil
  then show ?thesis by simp
next
  case (Cons q cs')
  show ?thesis
  proof (cases "q = CHR 0x22")
    case False
    then show ?thesis using Cons by simp
  next
    case q: True
    show ?thesis
    proof (cases "parse_chars cs'")
      case None
      then show ?thesis using Cons q by simp
    next
      case (Some x)
      obtain k r1 where x: "x = (k, r1)" by (cases x)
      note k = Some [unfolded x]
      have l1: "length r1 < length cs'" by (rule parse_chars_consumes [OF k])
      show ?thesis
      proof (cases "skip_ws r1")
        case Nil
        then show ?thesis using Cons q k by simp
      next
        case sk1: (Cons c r2)
        have l2: "length r2 < length r1" by (rule skip_ws_Cons [OF sk1])
        show ?thesis
        proof (cases "c = CHR '':''")
          case False
          then show ?thesis using Cons q k sk1 by simp
        next
          case c: True
          have "2 * length (skip_ws r2) < n"
            using length_skip_ws [of r2] l1 l2 f Cons by simp
          then have nf: "parse_value n (skip_ws r2) \<noteq> NoFuel" by (rule IHv)
          show ?thesis
          proof (cases "parse_value n (skip_ws r2)")
            case NoFuel
            then show ?thesis using nf by simp
          next
            case Reject
            then show ?thesis using Cons q k sk1 c by simp
          next
            case (Accept y)
            obtain v r3 where y: "y = (v, r3)" by (cases y)
            note v = Accept [unfolded y]
            have l3: "length r3 < length r2"
              using parse_value_consumes [OF v] length_skip_ws [of r2] by linarith
            show ?thesis
            proof (cases "skip_ws r3")
              case Nil
              then show ?thesis using Cons q k sk1 c v by simp
            next
              case sk2: (Cons c2 r4)
              have l4: "length r4 < length r3" by (rule skip_ws_Cons [OF sk2])
              have "2 * length (skip_ws r4) + 1 < n"
                using length_skip_ws [of r4] l1 l2 l3 l4 f Cons by simp
              then have "parse_members n (skip_ws r4) \<noteq> NoFuel" by (rule IHm)
              then show ?thesis
                using Cons q k sk1 c v sk2 by (simp split: presult.splits prod.splits)
            qed
          qed
        qed
      qed
    qed
  qed
qed

lemma parse_fuel:
  "(\<forall>cs. 2 * length cs < n \<longrightarrow> parse_value n cs \<noteq> NoFuel)
   \<and> (\<forall>cs. 2 * length cs + 1 < n \<longrightarrow> parse_elements n cs \<noteq> NoFuel)
   \<and> (\<forall>cs. 2 * length cs + 1 < n \<longrightarrow> parse_members n cs \<noteq> NoFuel)"
proof (induction n)
  case 0
  show ?case by simp
next
  case (Suc n)
  have IHv: "\<And>cs. 2 * length cs < n \<Longrightarrow> parse_value n cs \<noteq> NoFuel"
    and IHe: "\<And>cs. 2 * length cs + 1 < n \<Longrightarrow> parse_elements n cs \<noteq> NoFuel"
    and IHm: "\<And>cs. 2 * length cs + 1 < n \<Longrightarrow> parse_members n cs \<noteq> NoFuel"
    using Suc by blast+
  have v: "parse_value (Suc n) cs \<noteq> NoFuel" if "2 * length cs < Suc n" for cs
    by (rule parse_value_fuel_step [where n = n]) (erule IHe, erule IHm, rule that)
  have e: "parse_elements (Suc n) cs \<noteq> NoFuel" if "2 * length cs + 1 < Suc n" for cs
    by (rule parse_elements_fuel_step [where n = n]) (erule IHv, erule IHe, rule that)
  have m: "parse_members (Suc n) cs \<noteq> NoFuel" if "2 * length cs + 1 < Suc n" for cs
    by (rule parse_members_fuel_step [where n = n]) (erule IHv, erule IHm, rule that)
  show ?case using v e m by blast
qed

text \<open>\<open>JSON.parse\<close> never runs out of fuel: it rejects a text only for its syntax.\<close>

lemma JSON_parse_fuel: "parse_value (2 * length s + 1) (skip_ws s) \<noteq> NoFuel"
proof -
  have "2 * length (skip_ws s) < 2 * length s + 1" using length_skip_ws [of s] by simp
  then show ?thesis using parse_fuel [of "2 * length s + 1"] by blast
qed

lemma JSON_parse_None_iff:
  "JSON_parse s = None \<longleftrightarrow>
     parse_value (2 * length s + 1) (skip_ws s) = Reject
     \<or> (\<exists>v r. parse_value (2 * length s + 1) (skip_ws s) = Accept (v, r) \<and> skip_ws r \<noteq> [])"
  using JSON_parse_fuel [of s]
  by (cases "parse_value (2 * length s + 1) (skip_ws s)") (auto simp: JSON_parse_def)

section \<open>Loading\<close>

lemma load_parsed:
  assumes "JSON_parse stored = Some v"
  shows "load seed (Some stored) =
     (case get_length v of
        Inl e \<Rightarrow> Default seed
      | Inr len \<Rightarrow> if truthy len then Parsed v else Default seed)"
proof -
  have "stored \<noteq> []"
  proof
    assume "stored = []"
    then have "JSON_parse stored = None" by (simp add: JSON_parse_def skip_ws_def)
    then show False using assms by simp
  qed
  then show ?thesis using assms by (simp add: load_def)
qed

lemma load_malformed: "JSON_parse stored = None \<Longrightarrow> load seed (Some stored) = Default seed"
  by (simp add: load_def)

lemma is_zero_length: "is_zero m 0 = (m = 0)"
  by (simp add: is_zero_def)

lemma load_array:
  assumes "JSON_parse stored = Some (JArr xs)"
  shows "load seed (Some stored) = (if xs = [] then Default seed else Parsed (JArr xs))"
  by (simp add: load_parsed [OF assms] get_length_def truthy_def is_zero_length)

lemma load_string:
  assumes "JSON_parse stored = Some (JStr us)"
  shows "load seed (Some stored) = (if us = [] then Default seed else Parsed (JStr us))"
  by (simp add: load_parsed [OF assms] get_length_def truthy_def is_zero_length)

lemma load_card_array:
  assumes "JSON_parse stored = Some v" "is_card_array v"
  shows "load seed (Some stored) = Parsed v"
proof -
  from assms(2) obtain xs where v: "v = JArr xs" and ne: "xs \<noteq> []"
    by (cases v) (simp_all add: is_card_array_def)
  show ?thesis using load_array [of stored xs seed] assms(1) ne by (simp add: v)
qed

lemma export_kpi_parses:
  "case JSON_parse (exportJSON [card_kpi]) of None \<Rightarrow> False | Some v \<Rightarrow> is_card_array v"
  by code_simp

lemma broken_text_rejected: "JSON_parse ''[{'' = None"
  by code_simp

lemma truthy_length_get_length:
  "truthy_length v = (case get_length v of Inl e \<Rightarrow> False | Inr len \<Rightarrow> truthy len)"
  by (cases v) (simp_all add: truthy_length_def get_length_def truthy_def is_zero_length
      split: option.splits json.splits)

lemma load_truthy_length:
  "load seed raw =
     (case raw of
        None \<Rightarrow> Default seed
      | Some stored \<Rightarrow>
          (case JSON_parse stored of
             None \<Rightarrow> Default seed
           | Some v \<Rightarrow> if truthy_length v then Parsed v else Default seed))"
proof (cases raw)
  case None
  then show ?thesis by (simp add: load_def)
next
  case (Some stored)
  show ?thesis
  proof (cases "JSON_parse stored")
    case None
    then show ?thesis using Some by (simp add: load_malformed)
  next
    case (Some v)
    show ?thesis
      using \<open>raw = Some stored\<close> Some
      by (simp add: load_parsed [OF Some] truthy_length_get_length split: sum.splits)
  qed
qed

lemma length_object_parses:
  "JSON_parse (length_object ''1'') = Some (JObj [(ustr ''length'', JNum False 1 0)])"
  "JSON_parse (length_object ''0'') = Some (JObj [(ustr ''length'', JNum False 0 0)])"
  by code_simp+

subsection \<open>The claim about loading\<close>

text \<open>
  C9, as the specification states it: \<open>load\<close> returns the parsed collection when the
  stored string parses as a non-empty array of cards, and the default seed set in every
  other case. This fails for the stored string \<open>[1]\<close>: it parses, the value is an array
  but not an array of cards, and \<open>load\<close> returns it, not the seed set.
\<close>

theorem load_array_of_numbers:
  "JSON_parse ''[1]'' = Some (JArr [JNum False 1 0])
   \<and> \<not> is_card_array (JArr [JNum False 1 0])
   \<and> load [card_new] (Some ''[1]'') = Parsed (JArr [JNum False 1 0])
   \<and> load [card_new] (Some ''[1]'') \<noteq> Default [card_new]"
  by code_simp

text \<open>
  C9, amended: for every stored string, \<open>load\<close> returns the parsed value, whole and
  unchanged, exactly when the string parses to a value whose \<open>length\<close> is truthy: a
  non-empty array (of cards or of anything else), a non-empty string, or an object with
  a member \<open>length\<close> that is neither \<open>null\<close>, \<open>false\<close>, zero nor the empty string. In every
  other case it returns the default seed set: when the key is missing, when the string
  is empty or is not JSON, and when the parsed value has no truthy \<open>length\<close> (the empty
  array, the empty string, \<open>null\<close>, a number, a boolean, an object without such a
  member). It never fails and never returns a part of the parsed value.
\<close>

theorem load_parse_or_seed:
  "load seed raw =
     (case raw of
        None \<Rightarrow> Default seed
      | Some stored \<Rightarrow>
          (case JSON_parse stored of
             None \<Rightarrow> Default seed
           | Some v \<Rightarrow> if truthy_length v then Parsed v else Default seed))
   \<and> load seed None = Default seed
   \<and> load seed (Some []) = Default seed
   \<and> (\<forall>stored. JSON_parse stored = None \<longrightarrow> load seed (Some stored) = Default seed)
   \<and> (\<forall>stored v. JSON_parse stored = Some v \<longrightarrow> is_card_array v \<longrightarrow>
         load seed (Some stored) = Parsed v)
   \<and> (\<forall>stored x xs. JSON_parse stored = Some (JArr (x # xs)) \<longrightarrow>
         load seed (Some stored) = Parsed (JArr (x # xs)))
   \<and> (\<forall>stored u us. JSON_parse stored = Some (JStr (u # us)) \<longrightarrow>
         load seed (Some stored) = Parsed (JStr (u # us)))
   \<and> (\<forall>stored kvs. JSON_parse stored = Some (JObj kvs) \<longrightarrow>
         load seed (Some stored)
           = (if truthy (map_of (rev kvs) (ustr ''length'')) then Parsed (JObj kvs)
              else Default seed))
   \<and> (\<forall>stored v. JSON_parse stored = Some v \<longrightarrow>
         v = JArr [] \<or> v = JStr [] \<or> v = JNull \<or> (\<exists>b. v = JBool b) \<or> (\<exists>s m e. v = JNum s m e)
           \<or> (\<exists>kvs. v = JObj kvs \<and> map_of (rev kvs) (ustr ''length'') = None) \<longrightarrow>
         load seed (Some stored) = Default seed)
   \<and> (\<forall>raw. load seed raw = Default seed
          \<or> (\<exists>stored v. raw = Some stored \<and> JSON_parse stored = Some v \<and> load seed raw = Parsed v))"
proof (intro conjI allI impI)
  show "load seed raw =
     (case raw of
        None \<Rightarrow> Default seed
      | Some stored \<Rightarrow>
          (case JSON_parse stored of
             None \<Rightarrow> Default seed
           | Some v \<Rightarrow> if truthy_length v then Parsed v else Default seed))"
    by (rule load_truthy_length)
  show "load seed None = Default seed" by (simp add: load_def)
  show "load seed (Some []) = Default seed" by (simp add: load_def)
next
  fix stored assume "JSON_parse stored = None"
  then show "load seed (Some stored) = Default seed" by (rule load_malformed)
next
  fix stored v assume "JSON_parse stored = Some v" "is_card_array v"
  then show "load seed (Some stored) = Parsed v" by (rule load_card_array)
next
  fix stored x xs assume "JSON_parse stored = Some (JArr (x # xs))"
  then show "load seed (Some stored) = Parsed (JArr (x # xs))"
    by (simp add: load_array)
next
  fix stored u us assume "JSON_parse stored = Some (JStr (u # us))"
  then show "load seed (Some stored) = Parsed (JStr (u # us))"
    by (simp add: load_string)
next
  fix stored kvs assume p: "JSON_parse stored = Some (JObj kvs)"
  show "load seed (Some stored)
      = (if truthy (map_of (rev kvs) (ustr ''length'')) then Parsed (JObj kvs)
         else Default seed)"
    by (simp add: load_parsed [OF p] get_length_def)
next
  fix stored v
  assume p: "JSON_parse stored = Some v"
    and "v = JArr [] \<or> v = JStr [] \<or> v = JNull \<or> (\<exists>b. v = JBool b) \<or> (\<exists>s m e. v = JNum s m e)
           \<or> (\<exists>kvs. v = JObj kvs \<and> map_of (rev kvs) (ustr ''length'') = None)"
  then show "load seed (Some stored) = Default seed"
    by (auto simp: load_parsed [OF p] get_length_def truthy_def is_zero_length)
next
  fix raw
  show "load seed raw = Default seed
          \<or> (\<exists>stored v. raw = Some stored \<and> JSON_parse stored = Some v \<and> load seed raw = Parsed v)"
    by (auto simp: load_def split: option.splits sum.splits)
qed

theorem load_parse_or_seed_witness:
  "(\<exists>v. JSON_parse (exportJSON [card_kpi]) = Some v \<and> is_card_array v
        \<and> load [card_new] (Some (exportJSON [card_kpi])) = Parsed v)
   \<and> JSON_parse ''[{'' = None
   \<and> load [card_new] (Some ''[{'') = Default [card_new]
   \<and> load [card_new] (Some (length_object ''1''))
       = Parsed (JObj [(ustr ''length'', JNum False 1 0)])
   \<and> load [card_new] (Some (length_object ''0'')) = Default [card_new]"
proof -
  note w = load_parse_or_seed [of "[card_new]"]
  note exact = w [THEN conjunct1]
  note malformed = w [THEN conjunct2, THEN conjunct2, THEN conjunct2, THEN conjunct1,
      rule_format]
  note cards = w [THEN conjunct2, THEN conjunct2, THEN conjunct2, THEN conjunct2,
      THEN conjunct1, rule_format]
  obtain v where v: "JSON_parse (exportJSON [card_kpi]) = Some v" "is_card_array v"
    using export_kpi_parses by (auto split: option.splits)
  have "load [card_new] (Some (exportJSON [card_kpi])) = Parsed v" by (rule cards [OF v])
  moreover have "load [card_new] (Some ''[{'') = Default [card_new]"
    by (rule malformed [OF broken_text_rejected])
  moreover have "load [card_new] (Some (length_object ''1''))
       = Parsed (JObj [(ustr ''length'', JNum False 1 0)])"
    by (simp add: exact [of "Some (length_object ''1'')"] length_object_parses
        truthy_length_def is_zero_length)
  moreover have "load [card_new] (Some (length_object ''0'')) = Default [card_new]"
    by (simp add: exact [of "Some (length_object ''0'')"] length_object_parses
        truthy_length_def is_zero_length)
  ultimately show ?thesis using v broken_text_rejected by simp
qed

end
